theory Spec2Isabelle
  imports Main "HOL-Library.Word" "HOL-Library.AList"
begin

section \<open>JavaScript values\<close>

text \<open>
  Strings are sequences of UTF-16 code units, as in JavaScript. Property names of
  the records are the ASCII identifiers of the source and are kept as HOL strings.
\<close>

type_synonym jsstring = "16 word list"

definition js :: "string \<Rightarrow> jsstring" where
  "js s = map (\<lambda>c. of_nat (of_char c)) s"

text \<open>
  The values a record field can hold. Numbers are the integers (the keys and flags
  of the program); \<open>NaN\<close> is kept apart because it is falsy and is no valid key.
  The program stores no nested objects, arrays or fractions in its records, and the
  model has none.
\<close>

datatype jsval = Undefined | Null | Bool bool | Num int | NaN | Str jsstring

text \<open>
  An object is the list of its own properties in creation order.
\<close>

type_synonym jsobj = "(string \<times> jsval) list"

text \<open>Property read \<open>obj.p\<close>: an absent property reads as \<open>undefined\<close>.\<close>

definition js_get :: "jsobj \<Rightarrow> string \<Rightarrow> jsval" where
  "js_get obj p = (case map_of obj p of None \<Rightarrow> Undefined | Some v \<Rightarrow> v)"

text \<open>
  The object literal \<open>{ ...obj, p: v }\<close>: the properties of \<open>obj\<close> in their order,
  with \<open>p\<close> overwritten in place when present and appended otherwise.
\<close>

definition js_set :: "jsobj \<Rightarrow> string \<Rightarrow> jsval \<Rightarrow> jsobj" where
  "js_set obj p v = AList.update p v obj"

text \<open>Truthiness, as tested by \<open>x ? a : b\<close> and \<open>!x\<close>.\<close>

fun truthy :: "jsval \<Rightarrow> bool" where
  "truthy Undefined = False"
| "truthy Null = False"
| "truthy (Bool b) = b"
| "truthy (Num n) = (n \<noteq> 0)"
| "truthy NaN = False"
| "truthy (Str s) = (s \<noteq> [])"

text \<open>Strict equality \<open>a === b\<close>.\<close>

definition strict_eq :: "jsval \<Rightarrow> jsval \<Rightarrow> bool" where
  "strict_eq a b = (a = b \<and> a \<noteq> NaN)"

text \<open>
  \<open>String.prototype.trim\<close> removes the white space and line terminator code units
  of ECMAScript from both ends.
\<close>

definition is_ws :: "16 word \<Rightarrow> bool" where
  "is_ws c = (c \<in> {0x0009, 0x000A, 0x000B, 0x000C, 0x000D, 0x0020, 0x00A0, 0x1680,
                   0x2028, 0x2029, 0x202F, 0x205F, 0x3000, 0xFEFF}
              \<or> (0x2000 \<le> c \<and> c \<le> 0x200A))"

definition trim :: "jsstring \<Rightarrow> jsstring" where
  "trim s = rev (dropWhile is_ws (rev (dropWhile is_ws s)))"

section \<open>The storage engine\<close>

text \<open>
  The program keeps its data in the object stores of the browser's IndexedDB and calls
  them through five wrappers (\<open>idbGetAll\<close>, \<open>idbAdd\<close>, \<open>idbPut\<close>, \<open>idbDelete\<close>,
  \<open>idbIndexGetAll\<close>), each in a transaction of its own. The stores are modelled as the
  Indexed Database API specifies them, for the configuration \<open>openDB\<close> gives them:
  in-line keys with a key generator, and indexes on single fields.
\<close>

subsection \<open>Keys\<close>

text \<open>
  Numbers other than \<open>NaN\<close> and strings are valid keys. Keys are ordered with every
  number before every string, numbers by value and strings by code unit.
\<close>

fun valid_key :: "jsval \<Rightarrow> bool" where
  "valid_key (Num n) = True"
| "valid_key (Str s) = True"
| "valid_key v = False"

fun str_lt :: "jsstring \<Rightarrow> jsstring \<Rightarrow> bool" where
  "str_lt [] [] = False"
| "str_lt [] (b # bs) = True"
| "str_lt (a # as) [] = False"
| "str_lt (a # as) (b # bs) = (a < b \<or> (a = b \<and> str_lt as bs))"

fun key_lt :: "jsval \<Rightarrow> jsval \<Rightarrow> bool" where
  "key_lt (Num a) (Num b) = (a < b)"
| "key_lt (Num a) (Str b) = True"
| "key_lt (Str a) (Str b) = str_lt a b"
| "key_lt a b = False"

text \<open>
  Evaluating a key path on a value: \<open>KFailure\<close> when the property is absent or
  \<open>undefined\<close>, \<open>KInvalid\<close> when it holds something that is no key.
\<close>

datatype keyres = KFailure | KInvalid | KKey jsval

definition extract_key :: "jsobj \<Rightarrow> string \<Rightarrow> keyres" where
  "extract_key v kp =
     (case map_of v kp of
        None \<Rightarrow> KFailure
      | Some Undefined \<Rightarrow> KFailure
      | Some x \<Rightarrow> (if valid_key x then KKey x else KInvalid))"

subsection \<open>Schema (openDB, onupgradeneeded)\<close>

record index_schema =
  idx_name :: string
  idx_keyPath :: string
  idx_unique :: bool

record store_schema =
  keyPath :: string
  autoIncrement :: bool
  indexes :: "index_schema list"

text \<open>
  The three object stores created by \<open>openDB\<close>; any other name is no object store
  of the database.
\<close>

definition schema :: "string \<Rightarrow> store_schema option" where
  "schema name =
     (if name = ''jour'' then
        Some \<lparr>keyPath = ''jour_id'', autoIncrement = True,
              indexes = [\<lparr>idx_name = ''jour_title'', idx_keyPath = ''jour_title'', idx_unique = True\<rparr>]\<rparr>
      else if name = ''memos'' then
        Some \<lparr>keyPath = ''memo_id'', autoIncrement = True,
              indexes = [\<lparr>idx_name = ''jour_title'', idx_keyPath = ''jour_title'', idx_unique = False\<rparr>]\<rparr>
      else if name = ''tasks'' then
        Some \<lparr>keyPath = ''id'', autoIncrement = True,
              indexes = [\<lparr>idx_name = ''jour_title'', idx_keyPath = ''jour_title'', idx_unique = False\<rparr>,
                         \<lparr>idx_name = ''done'', idx_keyPath = ''done'', idx_unique = False\<rparr>]\<rparr>
      else None)"

subsection \<open>State\<close>

text \<open>
  An object store holds its records in ascending key order (the order in which
  \<open>getAll\<close> returns them), each record carrying its key at the key path, and the
  current number of its key generator.
\<close>

record store =
  rows :: "jsobj list"
  keygen :: int

text \<open>
  The ways a promise of the program rejects: the \<open>DOMException\<close>s \<open>ConstraintError\<close>,
  \<open>DataError\<close> and \<open>NotFoundError\<close> of the object stores, any failure of the device
  behind them (quota, I/O), and the \<open>Error\<close> of \<open>openDB\<close> in a browser without
  IndexedDB.
\<close>

datatype error = ConstraintError | DataError | NotFoundError | DeviceFailure | Unsupported

datatype request =
    GetAll string
  | Add string jsobj
  | Put string jsobj
  | Delete string jsval
  | IndexGetAll string string jsval

text \<open>
  What the storage device does with a request, which the wrappers place in a
  transaction of its own. It serves it; or the request fails (\<open>req.onerror\<close>, the
  promise of the wrapper rejects); or the request succeeds (\<open>req.onsuccess\<close>, the
  promise resolves) and the transaction fails afterwards, when it commits. The
  wrappers listen to the request only, never to the transaction: after a failure at
  commit the caller holds a result, and the transaction has written nothing.
\<close>

datatype outcome = Served | RequestFails | CommitFails

text \<open>
  The state of the program: the three object stores of the database \<open>db\<close>, the
  global \<open>currentJourTitle\<close>, and two components of the environment. \<open>device\<close> is the
  schedule of the storage device: its head is the outcome of the next request
  placed; an empty schedule is a device that serves every request. \<open>trace\<close> records
  the calls made on the object stores, oldest first.
\<close>

record world =
  jour :: store
  memos :: store
  tasks :: store
  currentJourTitle :: jsstring
  device :: "outcome list"
  trace :: "request list"

definition get_store :: "string \<Rightarrow> world \<Rightarrow> store" where
  "get_store name s =
     (if name = ''jour'' then jour s else if name = ''memos'' then memos s else tasks s)"

definition set_store :: "string \<Rightarrow> store \<Rightarrow> world \<Rightarrow> world" where
  "set_store name st s =
     (if name = ''jour'' then s\<lparr>jour := st\<rparr>
      else if name = ''memos'' then s\<lparr>memos := st\<rparr>
      else s\<lparr>tasks := st\<rparr>)"

definition log_call :: "request \<Rightarrow> world \<Rightarrow> world" where
  "log_call r s = s\<lparr>trace := trace s @ [r]\<rparr>"

text \<open>Placing a request consumes the head of the device schedule.\<close>

definition tick :: "world \<Rightarrow> outcome \<times> world" where
  "tick s = (case device s of [] \<Rightarrow> (Served, s) | b # bs \<Rightarrow> (b, s\<lparr>device := bs\<rparr>))"

text \<open>
  The handler \<open>onupgradeneeded\<close> of \<open>openDB\<close> runs when the database does not exist
  yet: it creates the three stores, empty, with key generators at 1. \<open>today\<close> is the
  value \<open>todayISO()\<close> gave \<open>currentJourTitle\<close> when the script was loaded.
\<close>

definition onupgradeneeded :: "jsstring \<Rightarrow> world" where
  "onupgradeneeded today =
     \<lparr>jour = \<lparr>rows = [], keygen = 1\<rparr>,
      memos = \<lparr>rows = [], keygen = 1\<rparr>,
      tasks = \<lparr>rows = [], keygen = 1\<rparr>,
      currentJourTitle = today,
      device = [],
      trace = []\<rparr>"

text \<open>
  The first \<open>openDB\<close> of a profile: it rejects when the browser has no IndexedDB
  (\<open>supported\<close> is \<open>"indexedDB" in window\<close>) and resolves with the database just
  created otherwise.
\<close>

definition openDB :: "bool \<Rightarrow> jsstring \<Rightarrow> error + world" where
  "openDB supported today =
     (if \<not> supported then Inl Unsupported else Inr (onupgradeneeded today))"

subsection \<open>Storing, deleting and reading records\<close>

text \<open>The key of a record in an index: none when the indexed field holds no valid key.\<close>

definition index_key :: "jsobj \<Rightarrow> string \<Rightarrow> jsval option" where
  "index_key r kp = (case extract_key r kp of KKey k \<Rightarrow> Some k | _ \<Rightarrow> None)"

text \<open>
  A record \<open>v\<close> to be stored under key \<open>k\<close> clashes when a unique index already holds
  its index key for a record with another primary key.
\<close>

definition unique_clash :: "store_schema \<Rightarrow> jsval \<Rightarrow> jsobj \<Rightarrow> jsobj list \<Rightarrow> bool" where
  "unique_clash sc k v rs =
     list_ex (\<lambda>ix. idx_unique ix \<and> index_key v (idx_keyPath ix) \<noteq> None \<and>
                list_ex (\<lambda>r. js_get r (keyPath sc) \<noteq> k \<and>
                           index_key r (idx_keyPath ix) = index_key v (idx_keyPath ix)) rs)
             (indexes sc)"

text \<open>Writing a record at its place in key order, replacing the record of the same key.\<close>

fun upsert :: "string \<Rightarrow> jsval \<Rightarrow> jsobj \<Rightarrow> jsobj list \<Rightarrow> jsobj list" where
  "upsert kp k v [] = [v]"
| "upsert kp k v (r # rs) =
     (if js_get r kp = k then v # rs
      else if key_lt k (js_get r kp) then v # r # rs
      else r # upsert kp k v rs)"

text \<open>
  \<open>store.add(value)\<close> (\<open>no_overwrite\<close>) and \<open>store.put(value)\<close> in a transaction of
  their own, as \<open>idbAdd\<close> and \<open>idbPut\<close> run them. \<open>tx\<close> throws for an unknown store; the
  call throws \<open>DataError\<close> for a value whose key is invalid; a record without key
  gets the current number of the key generator, written into it at the key path.
  A request that fails aborts its transaction, which leaves store and key
  generator as they were; so does a transaction that fails at commit, but then the
  request has succeeded before and the key has been handed to the caller. An
  explicit numeric key moves the key generator past it.
\<close>

definition store_record :: "bool \<Rightarrow> string \<Rightarrow> jsobj \<Rightarrow> world \<Rightarrow> (error + jsval) \<times> world" where
  "store_record no_overwrite name val s0 =
     (case schema name of
        None \<Rightarrow> (Inl NotFoundError, s0)
      | Some sc \<Rightarrow>
          let s = log_call ((if no_overwrite then Add else Put) name val) s0;
              st = get_store name s;
              kr = extract_key val (keyPath sc)
          in if kr = KInvalid \<or> (kr = KFailure \<and> \<not> autoIncrement sc) then (Inl DataError, s)
             else let (oc, s1) = tick s
                  in if oc = RequestFails then (Inl DeviceFailure, s1)
                     else if kr = KFailure \<and> keygen st > 2 ^ 53 then (Inl ConstraintError, s1)
                     else
                       let k = (case kr of KKey k \<Rightarrow> k | _ \<Rightarrow> Num (keygen st));
                           v = (case kr of KKey _ \<Rightarrow> val | _ \<Rightarrow> js_set val (keyPath sc) k);
                           g = (case kr of
                                  KKey (Num n) \<Rightarrow>
                                    (if autoIncrement sc then max (keygen st) (min n (2 ^ 53) + 1)
                                     else keygen st)
                                | KKey _ \<Rightarrow> keygen st
                                | _ \<Rightarrow> keygen st + 1)
                       in if (no_overwrite \<and> list_ex (\<lambda>r. js_get r (keyPath sc) = k) (rows st))
                             \<or> unique_clash sc k v (rows st)
                          then (Inl ConstraintError, s1)
                          else if oc = CommitFails then (Inr k, s1)
                          else (Inr k,
                                set_store name
                                  \<lparr>rows = upsert (keyPath sc) k v (rows st), keygen = g\<rparr> s1))"

definition idbAdd :: "string \<Rightarrow> jsobj \<Rightarrow> world \<Rightarrow> (error + jsval) \<times> world" where
  "idbAdd storeName val s = store_record True storeName val s"

definition idbPut :: "string \<Rightarrow> jsobj \<Rightarrow> world \<Rightarrow> (error + jsval) \<times> world" where
  "idbPut storeName val s = store_record False storeName val s"

text \<open>
  \<open>store.delete(key)\<close>: no record of that key is no error. After a failure at commit
  the promise has resolved and nothing is deleted.
\<close>

definition idbDelete :: "string \<Rightarrow> jsval \<Rightarrow> world \<Rightarrow> (error + unit) \<times> world" where
  "idbDelete storeName key s0 =
     (case schema storeName of
        None \<Rightarrow> (Inl NotFoundError, s0)
      | Some sc \<Rightarrow>
          let s = log_call (Delete storeName key) s0
          in if \<not> valid_key key then (Inl DataError, s)
             else let (oc, s1) = tick s
                  in if oc = RequestFails then (Inl DeviceFailure, s1)
                     else if oc = CommitFails then (Inr (), s1)
                     else let st = get_store storeName s1
                          in (Inr (),
                              set_store storeName
                                (st\<lparr>rows := filter (\<lambda>r. js_get r (keyPath sc) \<noteq> key) (rows st)\<rparr>) s1))"

text \<open>
  The two reads write nothing: a transaction of theirs that fails at commit, after
  the request has delivered its result, makes no difference.
\<close>

definition idbGetAll :: "string \<Rightarrow> world \<Rightarrow> (error + jsobj list) \<times> world" where
  "idbGetAll storeName s0 =
     (case schema storeName of
        None \<Rightarrow> (Inl NotFoundError, s0)
      | Some sc \<Rightarrow>
          let s = log_call (GetAll storeName) s0;
              (oc, s1) = tick s
          in if oc = RequestFails then (Inl DeviceFailure, s1)
             else (Inr (rows (get_store storeName s1)), s1))"

text \<open>
  \<open>store.index(indexName).getAll(IDBKeyRange.only(indexValue))\<close>: \<open>index\<close> throws for
  an unknown index and \<open>only\<close> for a value that is no key, both before the call.
  All records returned have the same index key, so they come in primary key order.
\<close>

definition idbIndexGetAll :: "string \<Rightarrow> string \<Rightarrow> jsval \<Rightarrow> world \<Rightarrow> (error + jsobj list) \<times> world" where
  "idbIndexGetAll storeName indexName indexValue s0 =
     (case schema storeName of
        None \<Rightarrow> (Inl NotFoundError, s0)
      | Some sc \<Rightarrow>
          (case find (\<lambda>ix. idx_name ix = indexName) (indexes sc) of
             None \<Rightarrow> (Inl NotFoundError, s0)
           | Some ix \<Rightarrow>
               if \<not> valid_key indexValue then (Inl DataError, s0)
               else
                 let s = log_call (IndexGetAll storeName indexName indexValue) s0;
                     (oc, s1) = tick s
                 in if oc = RequestFails then (Inl DeviceFailure, s1)
                    else (Inr (filter (\<lambda>r. index_key r (idx_keyPath ix) = Some indexValue)
                                 (rows (get_store storeName s1))), s1)))"

section \<open>The application\<close>

text \<open>
  The actions are those of \<open>app2.js\<close>. \<open>app.js\<close> is an earlier version of the same
  program: it has no \<open>editMemo\<close>, and its other actions and its wrappers of the object
  stores are the same statements.
\<close>

text \<open>
  What the user did with the modal dialog: the \<open>returnValue\<close> it closed with and the
  text of its input field at that moment.
\<close>

record dialog =
  returnValue :: jsstring
  inputValue :: jsstring

definition promptModal :: "dialog \<Rightarrow> jsstring option" where
  "promptModal d = (if returnValue d = js ''ok'' then Some (trim (inputValue d)) else None)"

subsection \<open>Rendering\<close>

text \<open>
  Of the render functions only the requests they place are modelled, not the
  document they build: each one rejects when its request fails.
\<close>

definition renderJour :: "world \<Rightarrow> (error + unit) \<times> world" where
  "renderJour s = (case idbGetAll ''jour'' s of (Inl e, s') \<Rightarrow> (Inl e, s') | (Inr _, s') \<Rightarrow> (Inr (), s'))"

definition renderMemos :: "world \<Rightarrow> (error + unit) \<times> world" where
  "renderMemos s =
     (case idbIndexGetAll ''memos'' ''jour_title'' (Str (currentJourTitle s)) s of
        (Inl e, s') \<Rightarrow> (Inl e, s') | (Inr _, s') \<Rightarrow> (Inr (), s'))"

definition renderTasks :: "world \<Rightarrow> (error + unit) \<times> world" where
  "renderTasks s =
     (case idbIndexGetAll ''tasks'' ''jour_title'' (Str (currentJourTitle s)) s of
        (Inl e, s') \<Rightarrow> (Inl e, s') | (Inr _, s') \<Rightarrow> (Inr (), s'))"

text \<open>
  \<open>Promise.all\<close> of the three: each places its request before the first one settles,
  and the whole rejects when one of them does.
\<close>

definition renderAll :: "world \<Rightarrow> (error + unit) \<times> world" where
  "renderAll s =
     (let (r1, s1) = renderJour s;
          (r2, s2) = renderMemos s1;
          (r3, s3) = renderTasks s2
      in (case r1 of Inl e \<Rightarrow> Inl e
          | Inr _ \<Rightarrow> (case r2 of Inl e \<Rightarrow> Inl e | Inr _ \<Rightarrow> r3), s3))"

subsection \<open>Actions\<close>

text \<open>
  \<open>today\<close> and \<open>now\<close> are what \<open>todayISO()\<close> and \<open>nowTime()\<close> return at the call. The
  \<open>catch\<close> has no condition: both branches differ in the toast only.
\<close>

definition ensureTodayJour :: "jsstring \<Rightarrow> jsstring \<Rightarrow> world \<Rightarrow> (error + unit) \<times> world" where
  "ensureTodayJour today now s =
     (let s1 = s\<lparr>currentJourTitle := today\<rparr>
      in case idbAdd ''jour'' [(''jour_title'', Str today), (''created_at'', Str now)] s1 of
           (Inr _, s2) \<Rightarrow> renderAll s2
         | (Inl _, s2) \<Rightarrow> renderAll s2)"

definition setCurrentJour :: "jsstring \<Rightarrow> world \<Rightarrow> (error + unit) \<times> world" where
  "setCurrentJour title s = renderAll (s\<lparr>currentJourTitle := title\<rparr>)"

definition addMemo :: "dialog \<Rightarrow> jsstring \<Rightarrow> world \<Rightarrow> (error + unit) \<times> world" where
  "addMemo d now s =
     (case promptModal d of
        None \<Rightarrow> (Inr (), s)
      | Some v \<Rightarrow>
          if v = [] then (Inr (), s)
          else (case idbAdd ''memos''
                       [(''memo_title'', Str v), (''jour_title'', Str (currentJourTitle s)),
                        (''created_at'', Str now)] s of
                  (Inl e, s') \<Rightarrow> (Inl e, s')
                | (Inr _, s') \<Rightarrow> renderMemos s'))"

definition editMemo :: "jsobj \<Rightarrow> dialog \<Rightarrow> world \<Rightarrow> (error + unit) \<times> world" where
  "editMemo memo d s =
     (case promptModal d of
        None \<Rightarrow> (Inr (), s)
      | Some v \<Rightarrow>
          if v = [] then (Inr (), s)
          else (case idbPut ''memos'' (js_set memo ''memo_title'' (Str v)) s of
                  (Inl e, s') \<Rightarrow> (Inl e, s')
                | (Inr _, s') \<Rightarrow> renderMemos s'))"

definition addTask :: "dialog \<Rightarrow> jsstring \<Rightarrow> world \<Rightarrow> (error + unit) \<times> world" where
  "addTask d now s =
     (case promptModal d of
        None \<Rightarrow> (Inr (), s)
      | Some v \<Rightarrow>
          if v = [] then (Inr (), s)
          else (case idbAdd ''tasks''
                       [(''title'', Str v), (''done'', Num 0),
                        (''jour_title'', Str (currentJourTitle s)), (''created_at'', Str now)] s of
                  (Inl e, s') \<Rightarrow> (Inl e, s')
                | (Inr _, s') \<Rightarrow> renderTasks s'))"

text \<open>The iteration \<open>for (const m of memos) await idbDelete("memos", m.memo_id)\<close>.\<close>

fun delete_each :: "string \<Rightarrow> string \<Rightarrow> jsobj list \<Rightarrow> world \<Rightarrow> (error + unit) \<times> world" where
  "delete_each storeName kp [] s = (Inr (), s)"
| "delete_each storeName kp (m # ms) s =
     (case idbDelete storeName (js_get m kp) s of
        (Inl e, s') \<Rightarrow> (Inl e, s')
      | (Inr _, s') \<Rightarrow> delete_each storeName kp ms s')"

definition deleteJour :: "jsstring \<Rightarrow> jsstring \<Rightarrow> jsstring \<Rightarrow> world \<Rightarrow> (error + unit) \<times> world" where
  "deleteJour jourTitle today now s =
     (case idbGetAll ''jour'' s of
        (Inl e, s1) \<Rightarrow> (Inl e, s1)
      | (Inr allJour, s1) \<Rightarrow>
          (case find (\<lambda>j. strict_eq (js_get j ''jour_title'') (Str jourTitle)) allJour of
             None \<Rightarrow> (Inr (), s1)
           | Some target \<Rightarrow>
               (case idbIndexGetAll ''memos'' ''jour_title'' (Str jourTitle) s1 of
                  (Inl e, s2) \<Rightarrow> (Inl e, s2)
                | (Inr ms, s2) \<Rightarrow>
                    (case idbIndexGetAll ''tasks'' ''jour_title'' (Str jourTitle) s2 of
                       (Inl e, s3) \<Rightarrow> (Inl e, s3)
                     | (Inr ts, s3) \<Rightarrow>
                         (case delete_each ''memos'' ''memo_id'' ms s3 of
                            (Inl e, s4) \<Rightarrow> (Inl e, s4)
                          | (Inr _, s4) \<Rightarrow>
                              (case delete_each ''tasks'' ''id'' ts s4 of
                                 (Inl e, s5) \<Rightarrow> (Inl e, s5)
                               | (Inr _, s5) \<Rightarrow>
                                   (case idbDelete ''jour'' (js_get target ''jour_id'') s5 of
                                      (Inl e, s6) \<Rightarrow> (Inl e, s6)
                                    | (Inr _, s6) \<Rightarrow> ensureTodayJour today now s6)))))))"

definition deleteMemo :: "jsval \<Rightarrow> world \<Rightarrow> (error + unit) \<times> world" where
  "deleteMemo memoId s =
     (case idbDelete ''memos'' memoId s of
        (Inl e, s') \<Rightarrow> (Inl e, s') | (Inr _, s') \<Rightarrow> renderMemos s')"

definition deleteTask :: "jsval \<Rightarrow> world \<Rightarrow> (error + unit) \<times> world" where
  "deleteTask taskId s =
     (case idbDelete ''tasks'' taskId s of
        (Inl e, s') \<Rightarrow> (Inl e, s') | (Inr _, s') \<Rightarrow> renderTasks s')"

definition toggleTaskDone :: "jsobj \<Rightarrow> world \<Rightarrow> (error + unit) \<times> world" where
  "toggleTaskDone task s =
     (case idbPut ''tasks''
             (js_set task ''done'' (Num (if truthy (js_get task ''done'') then 0 else 1))) s of
        (Inl e, s') \<Rightarrow> (Inl e, s')
      | (Inr _, s') \<Rightarrow> renderTasks s')"

section \<open>Notions used in the statements\<close>

text \<open>The request placed next does not fail (the transaction may, at commit).\<close>

definition served :: "world \<Rightarrow> bool" where
  "served s = (case device s of [] \<Rightarrow> True | b # bs \<Rightarrow> b \<noteq> RequestFails)"

text \<open>
  The key generator after a record with the explicit key \<open>k\<close> was written: a numeric
  key moves it past the key, up to the largest number it can hold.
\<close>

definition put_keygen :: "jsval \<Rightarrow> int \<Rightarrow> int" where
  "put_keygen k g = (case k of Num n \<Rightarrow> max g (min n (2 ^ 53) + 1) | _ \<Rightarrow> g)"

text \<open>
  A well-formed object store: its records are in strictly ascending key order, each
  carries a valid key at the key path, and the key generator is beyond every numeric
  key in use unless it is exhausted.
\<close>

definition store_ok :: "string \<Rightarrow> store \<Rightarrow> bool" where
  "store_ok kp st =
     (sorted_wrt key_lt (map (\<lambda>r. js_get r kp) (rows st)) \<and>
      (\<forall>r\<in>set (rows st). valid_key (js_get r kp)) \<and>
      (\<forall>r\<in>set (rows st). \<forall>n. js_get r kp = Num n \<longrightarrow> n < keygen st \<or> 2 ^ 53 < keygen st))"

text \<open>What the unique index on \<open>jour_title\<close> maintains: no two records with one title.\<close>

definition titles_unique :: "store \<Rightarrow> bool" where
  "titles_unique st =
     (\<forall>r1\<in>set (rows st). \<forall>r2\<in>set (rows st).
        valid_key (js_get r1 ''jour_title'') \<and> js_get r1 ''jour_title'' = js_get r2 ''jour_title''
        \<longrightarrow> r1 = r2)"

text \<open>
  A well-formed database: each of the three stores is, for its key path, and the
  journal titles are unique.
\<close>

definition db_ok :: "world \<Rightarrow> bool" where
  "db_ok s = (store_ok ''jour_id'' (jour s) \<and> store_ok ''memo_id'' (memos s) \<and> store_ok ''id'' (tasks s)
              \<and> titles_unique (jour s))"

text \<open>A sequence of awaited \<open>idbAdd\<close> calls on one store, with the result of each.\<close>

fun add_all :: "string \<Rightarrow> jsobj list \<Rightarrow> world \<Rightarrow> (error + jsval) list \<times> world" where
  "add_all storeName [] s = ([], s)"
| "add_all storeName (v # vs) s =
     (let (r, s1) = idbAdd storeName v s;
          (rs, s2) = add_all storeName vs s1
      in (r # rs, s2))"

text \<open>The keys returned by the calls that succeeded, in call order.\<close>

fun assigned_keys :: "(error + jsval) list \<Rightarrow> jsval list" where
  "assigned_keys [] = []"
| "assigned_keys (Inl e # rs) = assigned_keys rs"
| "assigned_keys (Inr k # rs) = k # assigned_keys rs"

text \<open>
  The scenario of the specification: on a fresh database, one journal titled
  \<open>2024-01-01\<close>, one memo and one task that refer to it are inserted, each getting
  key 1.
\<close>

definition scenario_jour :: jsobj where
  "scenario_jour = [(''jour_title'', Str (js ''2024-01-01'')), (''created_at'', Str (js ''2024/1/1 9:00:00''))]"

definition scenario_memo :: jsobj where
  "scenario_memo = [(''memo_title'', Str (js ''x'')), (''jour_title'', Str (js ''2024-01-01'')),
                    (''created_at'', Str (js ''2024/1/1 9:01:00''))]"

definition scenario_task :: jsobj where
  "scenario_task = [(''title'', Str (js ''y'')), (''done'', Num 0), (''jour_title'', Str (js ''2024-01-01'')),
                    (''created_at'', Str (js ''2024/1/1 9:02:00''))]"

definition scenario :: world where
  "scenario =
     snd (idbAdd ''tasks'' scenario_task
       (snd (idbAdd ''memos'' scenario_memo
         (snd (idbAdd ''jour'' scenario_jour (onupgradeneeded (js ''2024-01-01'')))))))"

section \<open>Auxiliary facts\<close>

subsection \<open>Values and the dialog\<close>

lemma js_get_js_set: "js_get (js_set obj p v) q = (if q = p then v else js_get obj q)"
  by (simp add: js_get_def js_set_def update_conv')

lemma extract_key_js_get:
  "extract_key v kp =
     (if js_get v kp = Undefined then KFailure
      else if valid_key (js_get v kp) then KKey (js_get v kp) else KInvalid)"
  by (auto simp: extract_key_def js_get_def split: option.splits jsval.splits)

lemma index_key_valid: "valid_key k \<Longrightarrow> (index_key r kp = Some k) = (js_get r kp = k)"
  by (auto simp: index_key_def extract_key_js_get)

lemma trim_all_ws:
  assumes "\<forall>c\<in>set s. is_ws c"
  shows "trim s = []"
proof -
  from assms have d: "dropWhile is_ws s = []" by simp
  show ?thesis unfolding trim_def d by simp
qed

lemma promptModal_blank:
  "returnValue d \<noteq> js ''ok'' \<or> (\<forall>c\<in>set (inputValue d). is_ws c) \<Longrightarrow>
   promptModal d = None \<or> promptModal d = Some []"
  by (auto simp: promptModal_def trim_all_ws)

subsection \<open>The state and its frames\<close>

lemma schema_simps:
  "schema ''jour'' = Some \<lparr>keyPath = ''jour_id'', autoIncrement = True,
      indexes = [\<lparr>idx_name = ''jour_title'', idx_keyPath = ''jour_title'', idx_unique = True\<rparr>]\<rparr>"
  "schema ''memos'' = Some \<lparr>keyPath = ''memo_id'', autoIncrement = True,
      indexes = [\<lparr>idx_name = ''jour_title'', idx_keyPath = ''jour_title'', idx_unique = False\<rparr>]\<rparr>"
  "schema ''tasks'' = Some \<lparr>keyPath = ''id'', autoIncrement = True,
      indexes = [\<lparr>idx_name = ''jour_title'', idx_keyPath = ''jour_title'', idx_unique = False\<rparr>,
                 \<lparr>idx_name = ''done'', idx_keyPath = ''done'', idx_unique = False\<rparr>]\<rparr>"
  by (simp_all add: schema_def)

lemma schema_cases:
  "schema n = Some sc \<Longrightarrow> n = ''jour'' \<or> n = ''memos'' \<or> n = ''tasks''"
  by (simp add: schema_def split: if_splits)

lemma schema_autoIncrement: "schema n = Some sc \<Longrightarrow> autoIncrement sc"
  by (auto simp: schema_def split: if_splits)

lemma get_set_store [simp]: "get_store n (set_store n st s) = st"
  by (simp add: get_store_def set_store_def)

lemma get_store_log [simp]: "get_store n (log_call r s) = get_store n s"
  by (simp add: get_store_def log_call_def)

lemma get_store_names [simp]:
  "get_store ''jour'' s = jour s" "get_store ''memos'' s = memos s" "get_store ''tasks'' s = tasks s"
  by (simp_all add: get_store_def)

lemma set_store_frame [simp]:
  "currentJourTitle (set_store n st s) = currentJourTitle s"
  "device (set_store n st s) = device s"
  "trace (set_store n st s) = trace s"
  by (simp_all add: set_store_def)

lemma log_call_frame [simp]:
  "jour (log_call r s) = jour s" "memos (log_call r s) = memos s" "tasks (log_call r s) = tasks s"
  "currentJourTitle (log_call r s) = currentJourTitle s"
  "device (log_call r s) = device s"
  "trace (log_call r s) = trace s @ [r]"
  by (simp_all add: log_call_def)

lemma tick_frame [simp]:
  "jour (snd (tick s)) = jour s" "memos (snd (tick s)) = memos s" "tasks (snd (tick s)) = tasks s"
  "currentJourTitle (snd (tick s)) = currentJourTitle s"
  "trace (snd (tick s)) = trace s"
  "device (snd (tick s)) = tl (device s)"
  "get_store n (snd (tick s)) = get_store n s"
  by (simp_all add: tick_def get_store_def split: list.splits)

lemma fst_tick: "fst (tick s) = (case device s of [] \<Rightarrow> Served | b # bs \<Rightarrow> b)"
  by (simp add: tick_def split: list.splits)

lemma tick_nil: "device s = [] \<Longrightarrow> tick s = (Served, s)"
  by (simp add: tick_def)

lemma tick_served: "served s \<Longrightarrow> fst (tick s) \<noteq> RequestFails"
  by (simp add: served_def tick_def split: list.splits)

subsection \<open>Rendering and writing on a device that serves\<close>

lemma renderTasks_ok:
  "device s = [] \<Longrightarrow>
   renderTasks s = (Inr (), log_call (IndexGetAll ''tasks'' ''jour_title'' (Str (currentJourTitle s))) s)"
  by (simp add: renderTasks_def idbIndexGetAll_def schema_simps tick_def)

lemma renderMemos_ok:
  "device s = [] \<Longrightarrow>
   renderMemos s = (Inr (), log_call (IndexGetAll ''memos'' ''jour_title'' (Str (currentJourTitle s))) s)"
  by (simp add: renderMemos_def idbIndexGetAll_def schema_simps tick_def)

lemma renderJour_ok:
  "device s = [] \<Longrightarrow> renderJour s = (Inr (), log_call (GetAll ''jour'') s)"
  by (simp add: renderJour_def idbGetAll_def schema_simps tick_def)

lemma renderAll_ok:
  "device s = [] \<Longrightarrow>
   renderAll s = (Inr (), s\<lparr>trace := trace s @
      [GetAll ''jour'',
       IndexGetAll ''memos'' ''jour_title'' (Str (currentJourTitle s)),
       IndexGetAll ''tasks'' ''jour_title'' (Str (currentJourTitle s))]\<rparr>)"
  by (simp add: renderAll_def renderJour_ok renderMemos_ok renderTasks_ok log_call_def)

lemma idbPut_tasks_keyed:
  assumes "valid_key (js_get v ''id'')" and "device s = []"
  shows "idbPut ''tasks'' v s =
     (Inr (js_get v ''id''),
      s\<lparr>tasks := \<lparr>rows = upsert ''id'' (js_get v ''id'') v (rows (tasks s)),
                   keygen = put_keygen (js_get v ''id'') (keygen (tasks s))\<rparr>,
        trace := trace s @ [Put ''tasks'' v]\<rparr>)"
  using assms
  by (cases "js_get v ''id''")
     (simp_all add: idbPut_def store_record_def schema_simps extract_key_js_get Let_def tick_def
        unique_clash_def log_call_def set_store_def put_keygen_def)

lemma find_upsert:
  "js_get v kp = k \<Longrightarrow> find (\<lambda>r. js_get r kp = k) (upsert kp k v rs) = Some v"
  by (induction rs) auto

subsection \<open>The order of keys\<close>

lemma str_lt_irrefl: "\<not> str_lt a a"
  by (induction a) auto

lemma str_lt_asym: "str_lt a b \<Longrightarrow> \<not> str_lt b a"
  by (induction a b rule: str_lt.induct) auto

lemma str_lt_trans: "str_lt a b \<Longrightarrow> str_lt b c \<Longrightarrow> str_lt a c"
proof (induction a b arbitrary: c rule: str_lt.induct)
  case (2 b bs)
  then show ?case by (cases c) auto
next
  case (4 a as b bs)
  then show ?case by (cases c) auto
qed auto

lemma str_lt_total: "a = b \<or> str_lt a b \<or> str_lt b a"
  by (induction a b rule: str_lt.induct) auto

lemma key_lt_irrefl: "\<not> key_lt a a"
  by (cases a) (auto simp: str_lt_irrefl)

lemma key_lt_asym: "key_lt a b \<Longrightarrow> \<not> key_lt b a"
  by (cases a; cases b) (auto simp: str_lt_asym)

lemma key_lt_trans: "key_lt a b \<Longrightarrow> key_lt b c \<Longrightarrow> key_lt a c"
  by (cases a; cases b; cases c) (auto intro: str_lt_trans)

lemma key_lt_total: "valid_key a \<Longrightarrow> valid_key b \<Longrightarrow> a = b \<or> key_lt a b \<or> key_lt b a"
  using str_lt_total by (cases a; cases b) auto

lemma sorted_keys_distinct:
  "sorted_wrt key_lt ks \<Longrightarrow> distinct ks"
  by (induction ks) (auto simp: key_lt_irrefl)

lemma sorted_same_key:
  assumes "sorted_wrt key_lt (map (\<lambda>r. js_get r kp) rs)"
    and "r \<in> set rs" and "t \<in> set rs" and "js_get r kp = js_get t kp"
  shows "r = t"
proof -
  have "distinct (map (\<lambda>r. js_get r kp) rs)" using assms(1) by (rule sorted_keys_distinct)
  then have "inj_on (\<lambda>r. js_get r kp) (set rs)" by (simp add: distinct_map)
  then show ?thesis using assms(2-4) by (auto dest: inj_onD)
qed

lemma upsert_replace:
  assumes "sorted_wrt key_lt (map (\<lambda>r. js_get r kp) rs)" and "t \<in> set rs" and "js_get t kp = k"
  shows "upsert kp k v rs = map (\<lambda>r. if r = t then v else r) rs"
  using assms
proof (induction rs)
  case Nil
  then show ?case by simp
next
  case (Cons r rs)
  show ?case
  proof (cases "js_get r kp = k")
    case True
    have rt: "r = t"
      using sorted_same_key [OF Cons.prems(1), of r t] Cons.prems(2,3) True by simp
    have "\<forall>x\<in>set rs. x \<noteq> t"
      using Cons.prems(1) rt Cons.prems(3) by (auto simp: key_lt_irrefl)
    then have "map (\<lambda>r. if r = t then v else r) rs = rs"
      by (simp add: map_idI)
    then show ?thesis using True rt by simp
  next
    case False
    then have t: "t \<in> set rs" using Cons.prems(2,3) by auto
    then have "key_lt (js_get r kp) k" using Cons.prems(1,3) by auto
    then have "\<not> key_lt k (js_get r kp)" by (rule key_lt_asym)
    moreover have "r \<noteq> t" using False Cons.prems(3) by auto
    ultimately show ?thesis using False Cons.IH t Cons.prems(1,3) by simp
  qed
qed

subsection \<open>Toggling a stored task\<close>

lemma put_keygen_stored:
  "store_ok kp st \<Longrightarrow> r \<in> set (rows st) \<Longrightarrow> put_keygen (js_get r kp) (keygen st) = keygen st"
proof (cases "js_get r kp")
  case (Num n)
  assume "store_ok kp st" and "r \<in> set (rows st)"
  then have "n < keygen st \<or> 2 ^ 53 < keygen st"
    using Num by (auto simp: store_ok_def)
  then show ?thesis by (auto simp: Num put_keygen_def)
qed (simp_all add: put_keygen_def)

lemma js_set_js_set: "js_set (js_set obj p v) p w = js_set obj p w"
  by (simp add: js_set_def)

lemma js_set_same: "js_get obj p = v \<Longrightarrow> v \<noteq> Undefined \<Longrightarrow> js_set obj p v = obj"
  by (auto simp: js_set_def js_get_def update_triv split: option.splits)

lemma toggle_stored:
  assumes ok: "store_ok ''id'' (tasks s)" and st: "task \<in> set (rows (tasks s))"
    and dev: "device s = []"
  shows "toggleTaskDone task s =
     (Inr (),
      s\<lparr>tasks := \<lparr>rows = map (\<lambda>r. if r = task then js_set task ''done'' (Num (if truthy (js_get task ''done'') then 0 else 1)) else r) (rows (tasks s)),
                   keygen = keygen (tasks s)\<rparr>,
        trace := trace s @ [Put ''tasks'' (js_set task ''done'' (Num (if truthy (js_get task ''done'') then 0 else 1))),
                            IndexGetAll ''tasks'' ''jour_title'' (Str (currentJourTitle s))]\<rparr>)"
proof -
  let ?v = "js_set task ''done'' (Num (if truthy (js_get task ''done'') then 0 else 1))"
  have k: "js_get ?v ''id'' = js_get task ''id''" by (simp add: js_get_js_set)
  have vk: "valid_key (js_get task ''id'')" using ok st by (simp add: store_ok_def)
  have srt: "sorted_wrt key_lt (map (\<lambda>r. js_get r ''id'') (rows (tasks s)))"
    using ok by (simp add: store_ok_def)
  have put: "idbPut ''tasks'' ?v s =
     (Inr (js_get task ''id''),
      s\<lparr>tasks := \<lparr>rows = upsert ''id'' (js_get task ''id'') ?v (rows (tasks s)),
                   keygen = put_keygen (js_get task ''id'') (keygen (tasks s))\<rparr>,
        trace := trace s @ [Put ''tasks'' ?v]\<rparr>)"
    using idbPut_tasks_keyed [of ?v s] vk dev by (simp only: k)
  have up: "upsert ''id'' (js_get task ''id'') ?v (rows (tasks s))
              = map (\<lambda>r. if r = task then ?v else r) (rows (tasks s))"
    using srt st by (rule upsert_replace) simp
  have g: "put_keygen (js_get task ''id'') (keygen (tasks s)) = keygen (tasks s)"
    using ok st by (rule put_keygen_stored)
  show ?thesis
    using dev by (simp add: toggleTaskDone_def put up g renderTasks_ok log_call_def)
qed

lemma store_ok_replace:
  assumes "store_ok kp st" and "js_get v kp = js_get t kp"
  shows "store_ok kp \<lparr>rows = map (\<lambda>r. if r = t then v else r) (rows st), keygen = keygen st\<rparr>"
proof -
  have "map (\<lambda>r. js_get r kp) (map (\<lambda>r. if r = t then v else r) (rows st)) = map (\<lambda>r. js_get r kp) (rows st)"
    using assms(2) by (induction "rows st") auto
  then have "sorted_wrt key_lt (map (\<lambda>r. js_get r kp) (map (\<lambda>r. if r = t then v else r) (rows st)))"
    using assms(1) by (simp only: store_ok_def)
  moreover have "\<forall>r\<in>set (map (\<lambda>r. if r = t then v else r) (rows st)). valid_key (js_get r kp)"
    using assms by (auto simp: store_ok_def)
  moreover have "\<forall>r\<in>set (map (\<lambda>r. if r = t then v else r) (rows st)). \<forall>n. js_get r kp = Num n \<longrightarrow> n < keygen st \<or> 2 ^ 53 < keygen st"
    using assms by (auto simp: store_ok_def)
  ultimately show ?thesis by (simp only: store_ok_def store.simps)
qed

subsection \<open>Frames of the engine; inserts without key\<close>

lemma store_record_frame:
  "currentJourTitle (snd (store_record ow n v s)) = currentJourTitle s"
  by (simp add: store_record_def Let_def split_beta split: option.splits)

lemma idbGetAll_frame:
  "currentJourTitle (snd (idbGetAll n s)) = currentJourTitle s"
  "jour (snd (idbGetAll n s)) = jour s"
  "memos (snd (idbGetAll n s)) = memos s"
  "tasks (snd (idbGetAll n s)) = tasks s"
  by (simp_all add: idbGetAll_def Let_def split_beta split: option.splits)

lemma idbIndexGetAll_frame:
  "currentJourTitle (snd (idbIndexGetAll n i x s)) = currentJourTitle s"
  "jour (snd (idbIndexGetAll n i x s)) = jour s"
  "memos (snd (idbIndexGetAll n i x s)) = memos s"
  "tasks (snd (idbIndexGetAll n i x s)) = tasks s"
  by (simp_all add: idbIndexGetAll_def Let_def split_beta split: option.splits)

lemma renderAll_frame:
  "currentJourTitle (snd (renderAll s)) = currentJourTitle s"
  "jour (snd (renderAll s)) = jour s"
  "memos (snd (renderAll s)) = memos s"
  "tasks (snd (renderAll s)) = tasks s"
  by (simp_all add: renderAll_def renderJour_def renderMemos_def renderTasks_def split_beta
        idbGetAll_frame idbIndexGetAll_frame split: sum.splits)

text \<open>The schedule of the device only gets shorter.\<close>

lemma store_record_device:
  "set (device (snd (store_record ow n v s))) \<subseteq> set (device s)"
  by (auto simp: store_record_def Let_def split_beta tick_def log_call_def
        split: option.splits list.splits if_splits)

lemma tick_outcome: "fst (tick s) = Served \<or> fst (tick s) \<in> set (device s)"
  by (simp add: tick_def split: list.splits)

text \<open>
  When no transaction fails at commit, a keyless insert either fails and leaves the
  store as it was, or returns the current number of the key generator and advances
  it by one.
\<close>

lemma idbAdd_keyless:
  assumes "schema n = Some sc" and "js_get v (keyPath sc) = Undefined"
    and "CommitFails \<notin> set (device s)"
  shows "(\<exists>e. fst (idbAdd n v s) = Inl e \<and> get_store n (snd (idbAdd n v s)) = get_store n s)
       \<or> (fst (idbAdd n v s) = Inr (Num (keygen (get_store n s)))
          \<and> keygen (get_store n s) \<le> 2 ^ 53
          \<and> keygen (get_store n (snd (idbAdd n v s))) = keygen (get_store n s) + 1)"
proof -
  have "fst (tick (log_call (Add n v) s)) \<noteq> CommitFails"
    using tick_outcome [of "log_call (Add n v) s"] assms(3) by auto
  then show ?thesis
    using assms(1,2)
    by (simp add: idbAdd_def store_record_def extract_key_js_get Let_def split_beta)
qed

lemma idbAdd_failed:
  assumes "fst (idbAdd ''jour'' v s) = Inl e" and "js_get v ''jour_id'' = Undefined"
  shows "jour (snd (idbAdd ''jour'' v s)) = jour s \<and> memos (snd (idbAdd ''jour'' v s)) = memos s
       \<and> tasks (snd (idbAdd ''jour'' v s)) = tasks s
       \<and> device (snd (idbAdd ''jour'' v s)) = tl (device s)"
  using assms
  by (auto simp: idbAdd_def store_record_def schema_simps extract_key_js_get Let_def split_beta
      split: if_splits)

subsection \<open>Sequences of inserts; the unique index\<close>

lemma add_all_keys:
  assumes "schema n = Some sc" and "\<forall>v\<in>set vs. js_get v (keyPath sc) = Undefined"
    and "CommitFails \<notin> set (device s)"
  shows "sorted_wrt key_lt (assigned_keys (fst (add_all n vs s)))
       \<and> (\<forall>k\<in>set (assigned_keys (fst (add_all n vs s))).
            \<exists>m. k = Num m \<and> keygen (get_store n s) \<le> m \<and> m \<le> 2 ^ 53)"
  using assms(2,3)
proof (induction vs arbitrary: s)
  case Nil
  then show ?case by simp
next
  case (Cons v vs)
  obtain r s1 where add: "idbAdd n v s = (r, s1)" by (cases "idbAdd n v s")
  have v: "js_get v (keyPath sc) = Undefined" using Cons.prems by simp
  have rest: "\<forall>v\<in>set vs. js_get v (keyPath sc) = Undefined" using Cons.prems by simp
  have dev1: "CommitFails \<notin> set (device s1)"
    using store_record_device [of True n v s] add Cons.prems(2) by (auto simp: idbAdd_def)
  note IH = Cons.IH [OF rest dev1]
  from idbAdd_keyless [OF assms(1) v Cons.prems(2)] add
  consider (fail) e where "r = Inl e" "get_store n s1 = get_store n s"
    | (ok) "r = Inr (Num (keygen (get_store n s)))" "keygen (get_store n s) \<le> 2 ^ 53"
        "keygen (get_store n s1) = keygen (get_store n s) + 1"
    by auto
  then show ?case
  proof cases
    case fail
    then show ?thesis using IH by (simp add: add split_beta)
  next
    case ok
    have later: "\<forall>k\<in>set (assigned_keys (fst (add_all n vs s1))).
        \<exists>m. k = Num m \<and> keygen (get_store n s) < m \<and> m \<le> 2 ^ 53"
      using IH ok(3) by fastforce
    then have "\<forall>k\<in>set (assigned_keys (fst (add_all n vs s1))). key_lt (Num (keygen (get_store n s))) k"
      by fastforce
    moreover have "\<forall>k\<in>set (assigned_keys (fst (add_all n vs s1))).
        \<exists>m. k = Num m \<and> keygen (get_store n s) \<le> m \<and> m \<le> 2 ^ 53"
      using later by fastforce
    ultimately show ?thesis using IH ok(1,2) by (simp add: add split_beta)
  qed
qed

lemma unique_clash_jour:
  assumes "r \<in> set rs" and "js_get r ''jour_title'' = Str T" and "js_get v ''jour_title'' = Str T"
    and "js_get r ''jour_id'' \<noteq> k"
  shows "unique_clash \<lparr>keyPath = ''jour_id'', autoIncrement = True,
           indexes = [\<lparr>idx_name = ''jour_title'', idx_keyPath = ''jour_title'', idx_unique = True\<rparr>]\<rparr> k v rs"
proof -
  have "index_key r ''jour_title'' = Some (Str T)" "index_key v ''jour_title'' = Some (Str T)"
    using assms(2,3) by (simp_all add: index_key_valid)
  then show ?thesis
    using assms(1,4) by (auto simp: unique_clash_def list_ex_iff intro!: bexI [of _ r])
qed

subsection \<open>The scenario\<close>

lemmas engine_defs =
  idbAdd_def idbPut_def store_record_def idbDelete_def idbGetAll_def idbIndexGetAll_def
  schema_def extract_key_def index_key_def unique_clash_def js_get_def js_set_def
  tick_def log_call_def get_store_def set_store_def Let_def

lemma scenario_eq:
  "scenario =
     \<lparr>jour = \<lparr>rows = [scenario_jour @ [(''jour_id'', Num 1)]], keygen = 2\<rparr>,
      memos = \<lparr>rows = [scenario_memo @ [(''memo_id'', Num 1)]], keygen = 2\<rparr>,
      tasks = \<lparr>rows = [scenario_task @ [(''id'', Num 1)]], keygen = 2\<rparr>,
      currentJourTitle = js ''2024-01-01'',
      device = [],
      trace = [Add ''jour'' scenario_jour, Add ''memos'' scenario_memo, Add ''tasks'' scenario_task]\<rparr>"
  by (simp add: scenario_def scenario_jour_def scenario_memo_def scenario_task_def onupgradeneeded_def engine_defs)

text \<open>
  The commit of a transaction is where the keys returned can repeat: on a fresh
  database whose first two transactions fail at commit, four inserts of a memo
  return the keys 1, 1, 1 and 2, the first two for records that are not stored.
\<close>

lemma add_all_commit_failure:
  "assigned_keys (fst (add_all ''memos'' [scenario_memo, scenario_memo, scenario_memo, scenario_memo]
       ((onupgradeneeded (js ''2024-01-01''))\<lparr>device := [CommitFails, CommitFails]\<rparr>)))
     = [Num 1, Num 1, Num 1, Num 2]
   \<and> map (\<lambda>r. js_get r ''memo_id'')
        (rows (memos (snd (add_all ''memos'' [scenario_memo, scenario_memo, scenario_memo, scenario_memo]
          ((onupgradeneeded (js ''2024-01-01''))\<lparr>device := [CommitFails, CommitFails]\<rparr>)))))
     = [Num 1, Num 2]"
  by (simp add: onupgradeneeded_def scenario_memo_def engine_defs)

subsection \<open>Cascading deletion\<close>

lemma strict_eq_Str: "strict_eq a (Str T) = (a = Str T)"
  by (auto simp: strict_eq_def)

lemma idbDelete_memos_ok:
  assumes "device s = []" and "valid_key k"
  shows "idbDelete ''memos'' k s =
     (Inr (), s\<lparr>memos := (memos s)\<lparr>rows := filter (\<lambda>r. js_get r ''memo_id'' \<noteq> k) (rows (memos s))\<rparr>,
               trace := trace s @ [Delete ''memos'' k]\<rparr>)"
  using assms by (simp add: idbDelete_def schema_simps tick_def log_call_def set_store_def Let_def)

lemma idbDelete_tasks_ok:
  assumes "device s = []" and "valid_key k"
  shows "idbDelete ''tasks'' k s =
     (Inr (), s\<lparr>tasks := (tasks s)\<lparr>rows := filter (\<lambda>r. js_get r ''id'' \<noteq> k) (rows (tasks s))\<rparr>,
               trace := trace s @ [Delete ''tasks'' k]\<rparr>)"
  using assms by (simp add: idbDelete_def schema_simps tick_def log_call_def set_store_def Let_def)

lemma idbDelete_jour_ok:
  assumes "device s = []" and "valid_key k"
  shows "idbDelete ''jour'' k s =
     (Inr (), s\<lparr>jour := (jour s)\<lparr>rows := filter (\<lambda>r. js_get r ''jour_id'' \<noteq> k) (rows (jour s))\<rparr>,
               trace := trace s @ [Delete ''jour'' k]\<rparr>)"
  using assms by (simp add: idbDelete_def schema_simps tick_def log_call_def set_store_def Let_def)

lemma delete_each_memos:
  assumes "device s = []" and "\<forall>m\<in>set ms. valid_key (js_get m ''memo_id'')"
  shows "delete_each ''memos'' ''memo_id'' ms s =
     (Inr (), s\<lparr>memos := (memos s)\<lparr>rows := filter (\<lambda>r. js_get r ''memo_id'' \<notin> (\<lambda>m. js_get m ''memo_id'') ` set ms) (rows (memos s))\<rparr>,
               trace := trace s @ map (\<lambda>m. Delete ''memos'' (js_get m ''memo_id'')) ms\<rparr>)"
  using assms
proof (induction ms arbitrary: s)
  case Nil
  then show ?case by simp
next
  case (Cons m ms)
  then show ?case
    by (simp add: idbDelete_memos_ok conj_commute)
qed

lemma delete_each_tasks:
  assumes "device s = []" and "\<forall>m\<in>set ms. valid_key (js_get m ''id'')"
  shows "delete_each ''tasks'' ''id'' ms s =
     (Inr (), s\<lparr>tasks := (tasks s)\<lparr>rows := filter (\<lambda>r. js_get r ''id'' \<notin> (\<lambda>m. js_get m ''id'') ` set ms) (rows (tasks s))\<rparr>,
               trace := trace s @ map (\<lambda>m. Delete ''tasks'' (js_get m ''id'')) ms\<rparr>)"
  using assms
proof (induction ms arbitrary: s)
  case Nil
  then show ?case by simp
next
  case (Cons m ms)
  then show ?case
    by (simp add: idbDelete_tasks_ok conj_commute)
qed

text \<open>Deleting by the keys of the records selected by \<open>P\<close> removes exactly those records.\<close>

lemma filter_by_keys:
  assumes "sorted_wrt key_lt (map (\<lambda>r. js_get r kp) rs)"
  shows "filter (\<lambda>r. js_get r kp \<notin> (\<lambda>m. js_get m kp) ` set (filter P rs)) rs = filter (\<lambda>r. \<not> P r) rs"
proof (rule filter_cong [OF refl])
  fix r assume r: "r \<in> set rs"
  show "(js_get r kp \<notin> (\<lambda>m. js_get m kp) ` set (filter P rs)) = (\<not> P r)"
  proof
    assume "js_get r kp \<notin> (\<lambda>m. js_get m kp) ` set (filter P rs)"
    then show "\<not> P r" using r by auto
  next
    assume np: "\<not> P r"
    show "js_get r kp \<notin> (\<lambda>m. js_get m kp) ` set (filter P rs)"
    proof
      assume "js_get r kp \<in> (\<lambda>m. js_get m kp) ` set (filter P rs)"
      then obtain m where m: "m \<in> set rs" "P m" "js_get r kp = js_get m kp" by auto
      from sorted_same_key [OF assms r m(1) m(3)] have "r = m" .
      then show False using np m(2) by simp
    qed
  qed
qed

lemma idbGetAll_jour_ok:
  "device s = [] \<Longrightarrow> idbGetAll ''jour'' s = (Inr (rows (jour s)), s\<lparr>trace := trace s @ [GetAll ''jour'']\<rparr>)"
  by (simp add: idbGetAll_def schema_simps tick_def log_call_def)

lemma idbIndexGetAll_title_ok:
  "device s = [] \<Longrightarrow> n = ''memos'' \<or> n = ''tasks'' \<Longrightarrow>
   idbIndexGetAll n ''jour_title'' (Str T) s =
     (Inr (filter (\<lambda>r. js_get r ''jour_title'' = Str T) (rows (get_store n s))),
      s\<lparr>trace := trace s @ [IndexGetAll n ''jour_title'' (Str T)]\<rparr>)"
  by (auto simp: idbIndexGetAll_def schema_simps tick_def log_call_def index_key_valid)

lemma ensureTodayJour_ok:
  assumes "device s = []"
  shows "fst (ensureTodayJour today now s) = Inr ()
       \<and> memos (snd (ensureTodayJour today now s)) = memos s
       \<and> tasks (snd (ensureTodayJour today now s)) = tasks s
       \<and> trace (snd (ensureTodayJour today now s)) = trace s @
           [Add ''jour'' [(''jour_title'', Str today), (''created_at'', Str now)],
            GetAll ''jour'',
            IndexGetAll ''memos'' ''jour_title'' (Str today),
            IndexGetAll ''tasks'' ''jour_title'' (Str today)]"
proof -
  let ?v = "[(''jour_title'', Str today), (''created_at'', Str now)]"
  let ?s1 = "s\<lparr>currentJourTitle := today\<rparr>"
  obtain r s2 where add: "idbAdd ''jour'' ?v ?s1 = (r, s2)" by (cases "idbAdd ''jour'' ?v ?s1")
  have run: "ensureTodayJour today now s = renderAll s2"
    by (cases r) (simp_all add: ensureTodayJour_def add)
  have s2: "device s2 = []" "trace s2 = trace s @ [Add ''jour'' ?v]" "currentJourTitle s2 = today"
    "memos s2 = memos s" "tasks s2 = tasks s"
    using add assms
    by (auto simp: idbAdd_def store_record_def schema_simps extract_key_js_get js_get_def Let_def
          tick_def log_call_def set_store_def split: if_splits)
  show ?thesis by (simp add: run renderAll_ok s2)
qed

lemmas app_defs =
  deleteJour_def ensureTodayJour_def renderAll_def renderJour_def renderMemos_def renderTasks_def
  toggleTaskDone_def strict_eq_def

lemmas scenario_defs = scenario_eq scenario_jour_def scenario_memo_def scenario_task_def

text \<open>The state in which \<open>deleteJour\<close> leaves the scenario.\<close>

lemma deleteJour_scenario_state:
  "deleteJour (js ''2024-01-01'') today now scenario =
     (Inr (),
      \<lparr>jour = \<lparr>rows = [[(''jour_title'', Str today), (''created_at'', Str now), (''jour_id'', Num 2)]],
               keygen = 3\<rparr>,
       memos = \<lparr>rows = [], keygen = 2\<rparr>,
       tasks = \<lparr>rows = [], keygen = 2\<rparr>,
       currentJourTitle = today,
       device = [],
       trace = trace scenario @
         [GetAll ''jour'',
          IndexGetAll ''memos'' ''jour_title'' (Str (js ''2024-01-01'')),
          IndexGetAll ''tasks'' ''jour_title'' (Str (js ''2024-01-01'')),
          Delete ''memos'' (Num 1), Delete ''tasks'' (Num 1), Delete ''jour'' (Num 1),
          Add ''jour'' [(''jour_title'', Str today), (''created_at'', Str now)],
          GetAll ''jour'',
          IndexGetAll ''memos'' ''jour_title'' (Str today),
          IndexGetAll ''tasks'' ''jour_title'' (Str today)]\<rparr>)"
  by (simp add: app_defs scenario_defs engine_defs js_def)

lemma scenario_ok:
  "store_ok ''jour_id'' (jour scenario)" "store_ok ''memo_id'' (memos scenario)"
  "store_ok ''id'' (tasks scenario)" "device scenario = []"
  by (simp_all add: store_ok_def scenario_defs js_get_def)

subsection \<open>The engine keeps a database well-formed\<close>

lemma onupgradeneeded_ok: "db_ok (onupgradeneeded today)"
  by (simp add: db_ok_def store_ok_def titles_unique_def onupgradeneeded_def)

lemma openDB_ok: "openDB supported today = Inr s \<Longrightarrow> db_ok s"
  using onupgradeneeded_ok [of today] by (auto simp: openDB_def split: if_splits)

lemma set_upsert: "set (upsert kp k v rs) \<subseteq> insert v (set rs)"
  by (induction rs) auto

lemma upsert_sorted:
  assumes "sorted_wrt key_lt (map (\<lambda>r. js_get r kp) rs)" and "\<forall>r\<in>set rs. valid_key (js_get r kp)"
    and "valid_key k" and "js_get v kp = k"
  shows "sorted_wrt key_lt (map (\<lambda>r. js_get r kp) (upsert kp k v rs))"
  using assms(1,2)
proof (induction rs)
  case Nil
  then show ?case by simp
next
  case (Cons r rs)
  consider (eq) "js_get r kp = k" | (lt) "js_get r kp \<noteq> k" "key_lt k (js_get r kp)"
    | (gt) "js_get r kp \<noteq> k" "\<not> key_lt k (js_get r kp)" by blast
  then show ?case
  proof cases
    case eq
    then show ?thesis using Cons.prems assms(4) by simp
  next
    case lt
    have "\<forall>x\<in>set rs. key_lt k (js_get x kp)"
      using Cons.prems(1) lt(2) by (auto intro: key_lt_trans)
    then show ?thesis using Cons.prems lt assms(4) by simp
  next
    case gt
    have "key_lt (js_get r kp) k"
      using key_lt_total [OF assms(3), of "js_get r kp"] Cons.prems(2) gt by auto
    then have "\<forall>x\<in>set (upsert kp k v rs). key_lt (js_get r kp) (js_get x kp)"
      using set_upsert [of kp k v rs] Cons.prems(1) assms(4) by auto
    then show ?thesis using Cons gt by simp
  qed
qed

lemma store_ok_upsert:
  assumes ok: "store_ok kp st" and k: "valid_key k" and v: "js_get v kp = k"
    and g: "keygen st \<le> g" and kg: "\<forall>n. k = Num n \<longrightarrow> n < g \<or> 2 ^ 53 < g"
  shows "store_ok kp \<lparr>rows = upsert kp k v (rows st), keygen = g\<rparr>"
proof -
  have "sorted_wrt key_lt (map (\<lambda>r. js_get r kp) (upsert kp k v (rows st)))"
    using ok k v by (intro upsert_sorted) (simp_all add: store_ok_def)
  moreover have "\<forall>r\<in>set (upsert kp k v (rows st)). valid_key (js_get r kp)"
    using set_upsert [of kp k v "rows st"] ok k v by (auto simp: store_ok_def)
  moreover have "\<forall>r\<in>set (upsert kp k v (rows st)). \<forall>n. js_get r kp = Num n \<longrightarrow> n < g \<or> 2 ^ 53 < g"
  proof (intro ballI allI impI)
    fix r n assume r: "r \<in> set (upsert kp k v (rows st))" and n: "js_get r kp = Num n"
    from r set_upsert [of kp k v "rows st"] have "r = v \<or> r \<in> set (rows st)" by auto
    then show "n < g \<or> 2 ^ 53 < g"
    proof
      assume "r = v" then show ?thesis using kg v n by simp
    next
      assume "r \<in> set (rows st)"
      then have "n < keygen st \<or> 2 ^ 53 < keygen st" using ok n by (auto simp: store_ok_def)
      then show ?thesis using g by auto
    qed
  qed
  ultimately show ?thesis by (simp add: store_ok_def)
qed

lemma set_upsert_sorted:
  assumes "sorted_wrt key_lt (map (\<lambda>r. js_get r kp) rs)"
  shows "set (upsert kp k v rs) = insert v {r \<in> set rs. js_get r kp \<noteq> k}"
  using assms
proof (induction rs)
  case Nil
  then show ?case by simp
next
  case (Cons r rs)
  consider (eq) "js_get r kp = k" | (lt) "js_get r kp \<noteq> k" "key_lt k (js_get r kp)"
    | (gt) "js_get r kp \<noteq> k" "\<not> key_lt k (js_get r kp)" by blast
  then show ?case
  proof cases
    case eq
    have "\<forall>x\<in>set rs. js_get x kp \<noteq> k"
      using Cons.prems eq by (auto simp: key_lt_irrefl)
    then show ?thesis using eq by auto
  next
    case lt
    have "\<forall>x\<in>set rs. key_lt k (js_get x kp)"
      using Cons.prems lt(2) by (auto intro: key_lt_trans)
    then have "\<forall>x\<in>set rs. js_get x kp \<noteq> k" by (auto simp: key_lt_irrefl)
    then show ?thesis using lt by auto
  next
    case gt
    then show ?thesis using Cons by auto
  qed
qed

text \<open>
  What a successful \<open>add\<close> or \<open>put\<close> has done to its store, when its transaction has
  been committed.
\<close>

lemma store_record_done:
  assumes sc: "schema n = Some sc" and r: "fst (store_record ow n v s) = Inr k"
    and c: "fst (tick (log_call ((if ow then Add else Put) n v) s)) \<noteq> CommitFails"
  shows "\<exists>w g. js_get w (keyPath sc) = k \<and> valid_key k
           \<and> get_store n (snd (store_record ow n v s))
                = \<lparr>rows = upsert (keyPath sc) k w (rows (get_store n s)), keygen = g\<rparr>
           \<and> \<not> unique_clash sc k w (rows (get_store n s))
           \<and> keygen (get_store n s) \<le> g
           \<and> (\<forall>m. k = Num m \<longrightarrow> m < g \<or> 2 ^ 53 < g)"
proof (cases "js_get v (keyPath sc) = Undefined")
  case True
  let ?g = "keygen (get_store n s)"
  let ?w = "js_set v (keyPath sc) (Num ?g)"
  from True r sc c have "k = Num ?g"
    and "get_store n (snd (store_record ow n v s))
        = \<lparr>rows = upsert (keyPath sc) (Num ?g) ?w (rows (get_store n s)), keygen = ?g + 1\<rparr>"
    and "\<not> unique_clash sc (Num ?g) ?w (rows (get_store n s))"
    by (auto simp: store_record_def extract_key_js_get Let_def split_beta split: if_splits)
  then show ?thesis
    by (intro exI [of _ ?w] exI [of _ "?g + 1"]) (simp add: js_get_js_set)
next
  case False
  let ?g = "put_keygen (js_get v (keyPath sc)) (keygen (get_store n s))"
  from False r sc have vk: "valid_key (js_get v (keyPath sc))"
    by (auto simp: store_record_def extract_key_js_get Let_def split_beta split: if_splits)
  from False r sc c vk schema_autoIncrement [OF sc]
  have "k = js_get v (keyPath sc)"
    and "get_store n (snd (store_record ow n v s))
        = \<lparr>rows = upsert (keyPath sc) k v (rows (get_store n s)), keygen = ?g\<rparr>"
    and "\<not> unique_clash sc k v (rows (get_store n s))"
    by (cases "js_get v (keyPath sc)";
        auto simp: store_record_def extract_key_js_get Let_def split_beta put_keygen_def split: if_splits)+
  moreover have "keygen (get_store n s) \<le> ?g"
    by (cases "js_get v (keyPath sc)") (simp_all add: put_keygen_def)
  moreover have "\<forall>m. js_get v (keyPath sc) = Num m \<longrightarrow> m < ?g \<or> 2 ^ 53 < ?g"
    by (auto simp: put_keygen_def)
  ultimately show ?thesis using vk
    by (intro exI [of _ v] exI [of _ ?g]) simp
qed

lemma store_record_failed:
  assumes "schema n = Some sc" and "fst (store_record ow n v s) = Inl e"
  shows "get_store n (snd (store_record ow n v s)) = get_store n s"
  using assms by (auto simp: store_record_def Let_def split_beta split: if_splits)

lemma store_record_aborted:
  assumes "schema n = Some sc"
    and "fst (tick (log_call ((if ow then Add else Put) n v) s)) = CommitFails"
  shows "get_store n (snd (store_record ow n v s)) = get_store n s"
  using assms by (simp add: store_record_def Let_def split_beta)

text \<open>Either way: the store is as it was, or the record has been written.\<close>

lemma store_record_cases:
  assumes sc: "schema n = Some sc"
  shows "get_store n (snd (store_record ow n v s)) = get_store n s
       \<or> (\<exists>k w g. js_get w (keyPath sc) = k \<and> valid_key k
           \<and> get_store n (snd (store_record ow n v s))
                = \<lparr>rows = upsert (keyPath sc) k w (rows (get_store n s)), keygen = g\<rparr>
           \<and> \<not> unique_clash sc k w (rows (get_store n s))
           \<and> keygen (get_store n s) \<le> g
           \<and> (\<forall>m. k = Num m \<longrightarrow> m < g \<or> 2 ^ 53 < g))"
proof (cases "fst (store_record ow n v s)")
  case (Inl e)
  with store_record_failed [OF sc] show ?thesis by simp
next
  case (Inr k)
  show ?thesis
  proof (cases "fst (tick (log_call ((if ow then Add else Put) n v) s)) = CommitFails")
    case True
    with store_record_aborted [OF sc] show ?thesis by simp
  next
    case False
    from store_record_done [OF sc Inr False] show ?thesis by blast
  qed
qed

lemma store_record_ok:
  assumes sc: "schema n = Some sc" and ok: "store_ok (keyPath sc) (get_store n s)"
  shows "store_ok (keyPath sc) (get_store n (snd (store_record ow n v s)))"
  using store_record_cases [OF sc, of ow v s]
proof
  assume "get_store n (snd (store_record ow n v s)) = get_store n s"
  with ok show ?thesis by simp
next
  assume "\<exists>k w g. js_get w (keyPath sc) = k \<and> valid_key k
           \<and> get_store n (snd (store_record ow n v s))
                = \<lparr>rows = upsert (keyPath sc) k w (rows (get_store n s)), keygen = g\<rparr>
           \<and> \<not> unique_clash sc k w (rows (get_store n s))
           \<and> keygen (get_store n s) \<le> g
           \<and> (\<forall>m. k = Num m \<longrightarrow> m < g \<or> 2 ^ 53 < g)"
  then obtain k w g where
    w: "js_get w (keyPath sc) = k" "valid_key k"
    and st: "get_store n (snd (store_record ow n v s))
                = \<lparr>rows = upsert (keyPath sc) k w (rows (get_store n s)), keygen = g\<rparr>"
    and g: "keygen (get_store n s) \<le> g" "\<forall>m. k = Num m \<longrightarrow> m < g \<or> 2 ^ 53 < g"
    by blast
  show ?thesis unfolding st using ok w(2,1) g by (rule store_ok_upsert)
qed

lemma store_record_titles:
  assumes ok: "store_ok ''jour_id'' (jour s)" and u: "titles_unique (jour s)"
  shows "titles_unique (jour (snd (store_record ow ''jour'' v s)))"
proof -
  from store_record_cases [OF schema_simps(1), of ow v s]
  consider (same) "jour (snd (store_record ow ''jour'' v s)) = jour s"
    | (written) k w g where
        "jour (snd (store_record ow ''jour'' v s))
           = \<lparr>rows = upsert ''jour_id'' k w (rows (jour s)), keygen = g\<rparr>"
        "\<not> unique_clash \<lparr>keyPath = ''jour_id'', autoIncrement = True,
           indexes = [\<lparr>idx_name = ''jour_title'', idx_keyPath = ''jour_title'', idx_unique = True\<rparr>]\<rparr>
           k w (rows (jour s))"
    by auto
  then show ?thesis
  proof cases
    case same
    with u show ?thesis by simp
  next
    case (written k w g)
    note st = written(1) and nc = written(2)
    have srt: "sorted_wrt key_lt (map (\<lambda>r. js_get r ''jour_id'') (rows (jour s)))"
      using ok by (simp add: store_ok_def)
    have rows': "set (upsert ''jour_id'' k w (rows (jour s)))
                   = insert w {r \<in> set (rows (jour s)). js_get r ''jour_id'' \<noteq> k}"
      using srt by (rule set_upsert_sorted)
    have fresh: "js_get r ''jour_title'' \<noteq> js_get w ''jour_title''"
      if "r \<in> set (rows (jour s))" "js_get r ''jour_id'' \<noteq> k" "valid_key (js_get w ''jour_title'')" for r
    proof
      assume eq: "js_get r ''jour_title'' = js_get w ''jour_title''"
      have "index_key w ''jour_title'' = Some (js_get w ''jour_title'')"
        "index_key r ''jour_title'' = Some (js_get w ''jour_title'')"
        using that(3) eq by (simp_all add: index_key_valid)
      then have "unique_clash \<lparr>keyPath = ''jour_id'', autoIncrement = True,
             indexes = [\<lparr>idx_name = ''jour_title'', idx_keyPath = ''jour_title'', idx_unique = True\<rparr>]\<rparr>
             k w (rows (jour s))"
        using that(1,2) by (auto simp: unique_clash_def list_ex_iff intro!: bexI [of _ r])
      then show False using nc by simp
    qed
    show ?thesis
      unfolding titles_unique_def st store.simps rows'
    proof (intro ballI impI)
      fix r1 r2
      assume r1: "r1 \<in> insert w {r \<in> set (rows (jour s)). js_get r ''jour_id'' \<noteq> k}"
        and r2: "r2 \<in> insert w {r \<in> set (rows (jour s)). js_get r ''jour_id'' \<noteq> k}"
        and t: "valid_key (js_get r1 ''jour_title'') \<and> js_get r1 ''jour_title'' = js_get r2 ''jour_title''"
      show "r1 = r2"
      proof (cases "r1 = w")
        case True
        then show ?thesis using r2 t fresh [of r2] by auto
      next
        case False
        then have o1: "r1 \<in> set (rows (jour s))" "js_get r1 ''jour_id'' \<noteq> k" using r1 by auto
        show ?thesis
        proof (cases "r2 = w")
          case True
          then show ?thesis using o1 t fresh [of r1] by auto
        next
          case False
          then have "r2 \<in> set (rows (jour s))" using r2 by auto
          then show ?thesis using u o1(1) t by (auto simp: titles_unique_def)
        qed
      qed
    qed
  qed
qed

lemma set_store_other:
  "n \<noteq> ''jour'' \<Longrightarrow> jour (set_store n st s) = jour s"
  "n \<noteq> ''memos'' \<Longrightarrow> memos (set_store n st s) = memos s"
  "n = ''jour'' \<or> n = ''memos'' \<Longrightarrow> tasks (set_store n st s) = tasks s"
  by (auto simp: set_store_def)

lemma store_record_other:
  "n \<noteq> ''jour'' \<Longrightarrow> jour (snd (store_record ow n v s)) = jour s"
  "n \<noteq> ''memos'' \<Longrightarrow> memos (snd (store_record ow n v s)) = memos s"
  "n \<noteq> ''tasks'' \<Longrightarrow> tasks (snd (store_record ow n v s)) = tasks s"
proof -
  show "n \<noteq> ''jour'' \<Longrightarrow> jour (snd (store_record ow n v s)) = jour s"
    by (simp add: store_record_def Let_def split_beta set_store_other split: option.splits)
  show "n \<noteq> ''memos'' \<Longrightarrow> memos (snd (store_record ow n v s)) = memos s"
    by (simp add: store_record_def Let_def split_beta set_store_other split: option.splits)
  show "tasks (snd (store_record ow n v s)) = tasks s" if n: "n \<noteq> ''tasks''"
  proof (cases "schema n")
    case None
    then show ?thesis by (simp add: store_record_def)
  next
    case (Some sc)
    with schema_cases [OF Some] n have "n = ''jour'' \<or> n = ''memos''" by simp
    then show ?thesis
      by (simp add: store_record_def Let_def split_beta set_store_other split: option.splits)
  qed
qed

lemma store_record_db_ok:
  assumes "db_ok s"
  shows "db_ok (snd (store_record ow n v s))"
proof (cases "schema n")
  case None
  then show ?thesis using assms by (simp add: store_record_def)
next
  case (Some sc)
  from schema_cases [OF Some] show ?thesis
  proof (elim disjE)
    assume n: "n = ''jour''"
    then have kp: "keyPath sc = ''jour_id''" using Some by (auto simp: schema_def)
    from store_record_ok [OF Some, of s ow v] store_record_titles [of s ow v] assms
      store_record_other(2,3) [of n ow v s]
    show ?thesis by (simp add: db_ok_def n kp)
  next
    assume n: "n = ''memos''"
    then have kp: "keyPath sc = ''memo_id''" using Some by (auto simp: schema_def)
    from store_record_ok [OF Some, of s ow v] assms store_record_other(1,3) [of n ow v s]
    show ?thesis by (simp add: db_ok_def n kp)
  next
    assume n: "n = ''tasks''"
    then have kp: "keyPath sc = ''id''" using Some by (auto simp: schema_def)
    from store_record_ok [OF Some, of s ow v] assms store_record_other(1,2) [of n ow v s]
    show ?thesis by (simp add: db_ok_def n kp)
  qed
qed

lemma store_ok_filter:
  assumes "store_ok kp st"
  shows "store_ok kp (st\<lparr>rows := filter P (rows st)\<rparr>)"
proof -
  have "sorted_wrt key_lt (map (\<lambda>r. js_get r kp) (filter P (rows st)))"
    using assms by (simp add: store_ok_def sorted_wrt_map sorted_wrt_filter)
  then show ?thesis using assms by (auto simp: store_ok_def)
qed

lemma titles_unique_filter:
  "titles_unique st \<Longrightarrow> titles_unique (st\<lparr>rows := filter P (rows st)\<rparr>)"
  by (auto simp: titles_unique_def)

lemma idbDelete_db_ok:
  assumes "db_ok s"
  shows "db_ok (snd (idbDelete n k s))"
proof (cases "schema n")
  case None
  then show ?thesis using assms by (simp add: idbDelete_def)
next
  case (Some sc)
  from schema_cases [OF Some] show ?thesis
  proof (elim disjE)
    assume n: "n = ''jour''"
    show ?thesis using assms
      by (simp add: n idbDelete_def schema_simps Let_def split_beta set_store_def db_ok_def store_ok_filter titles_unique_filter)
  next
    assume n: "n = ''memos''"
    show ?thesis using assms
      by (simp add: n idbDelete_def schema_simps Let_def split_beta set_store_def db_ok_def store_ok_filter titles_unique_filter)
  next
    assume n: "n = ''tasks''"
    show ?thesis using assms
      by (simp add: n idbDelete_def schema_simps Let_def split_beta set_store_def db_ok_def store_ok_filter titles_unique_filter)
  qed
qed

lemma idbGetAll_db_ok: "db_ok (snd (idbGetAll n s)) = db_ok s"
  by (simp add: db_ok_def idbGetAll_frame)

lemma idbIndexGetAll_db_ok: "db_ok (snd (idbIndexGetAll n i x s)) = db_ok s"
  by (simp add: db_ok_def idbIndexGetAll_frame)

subsection \<open>The actions keep a database well-formed\<close>

lemma db_ok_frame [simp]:
  "db_ok (s\<lparr>currentJourTitle := t\<rparr>) = db_ok s"
  by (simp add: db_ok_def)

text \<open>
  Sequencing as the actions do it (an error ends the action, a result goes to the
  continuation) keeps what each step keeps.
\<close>

lemma seq_db_ok:
  assumes "db_ok (snd (f s))" and "\<And>x s'. db_ok s' \<Longrightarrow> db_ok (snd (g x s'))"
  shows "db_ok (snd (case f s of (Inl e, s') \<Rightarrow> (Inl e, s') | (Inr x, s') \<Rightarrow> g x s'))"
proof (cases "f s")
  case (Pair r s')
  then show ?thesis using assms by (cases r) auto
qed

lemma idbAdd_db_ok: "db_ok s \<Longrightarrow> db_ok (snd (idbAdd n v s))"
  by (simp add: idbAdd_def store_record_db_ok)

lemma idbPut_db_ok: "db_ok s \<Longrightarrow> db_ok (snd (idbPut n v s))"
  by (simp add: idbPut_def store_record_db_ok)

lemma renderMemos_db_ok: "db_ok s \<Longrightarrow> db_ok (snd (renderMemos s))"
  unfolding renderMemos_def by (rule seq_db_ok) (simp_all add: idbIndexGetAll_db_ok)

lemma renderTasks_db_ok: "db_ok s \<Longrightarrow> db_ok (snd (renderTasks s))"
  unfolding renderTasks_def by (rule seq_db_ok) (simp_all add: idbIndexGetAll_db_ok)

lemma renderAll_db_ok: "db_ok s \<Longrightarrow> db_ok (snd (renderAll s))"
  by (simp add: db_ok_def renderAll_frame)

lemma ensureTodayJour_db_ok: "db_ok s \<Longrightarrow> db_ok (snd (ensureTodayJour today now s))"
proof -
  assume ok: "db_ok s"
  let ?v = "[(''jour_title'', Str today), (''created_at'', Str now)]"
  obtain r s2 where add: "idbAdd ''jour'' ?v (s\<lparr>currentJourTitle := today\<rparr>) = (r, s2)"
    by (cases "idbAdd ''jour'' ?v (s\<lparr>currentJourTitle := today\<rparr>)")
  from idbAdd_db_ok [of "s\<lparr>currentJourTitle := today\<rparr>" "''jour''" ?v] add ok
  have "db_ok s2" by simp
  then have "db_ok (snd (renderAll s2))" by (rule renderAll_db_ok)
  then show ?thesis by (cases r) (simp_all add: ensureTodayJour_def add)
qed

lemma setCurrentJour_db_ok: "db_ok s \<Longrightarrow> db_ok (snd (setCurrentJour title s))"
  by (simp add: setCurrentJour_def renderAll_db_ok)

lemma addMemo_db_ok: "db_ok s \<Longrightarrow> db_ok (snd (addMemo d now s))"
  by (auto simp: addMemo_def idbAdd_db_ok renderMemos_db_ok split: option.splits intro!: seq_db_ok)

lemma editMemo_db_ok: "db_ok s \<Longrightarrow> db_ok (snd (editMemo memo d s))"
  by (auto simp: editMemo_def idbPut_db_ok renderMemos_db_ok split: option.splits intro!: seq_db_ok)

lemma addTask_db_ok: "db_ok s \<Longrightarrow> db_ok (snd (addTask d now s))"
  by (auto simp: addTask_def idbAdd_db_ok renderTasks_db_ok split: option.splits intro!: seq_db_ok)

lemma deleteMemo_db_ok: "db_ok s \<Longrightarrow> db_ok (snd (deleteMemo k s))"
  unfolding deleteMemo_def by (rule seq_db_ok) (simp_all add: idbDelete_db_ok renderMemos_db_ok)

lemma deleteTask_db_ok: "db_ok s \<Longrightarrow> db_ok (snd (deleteTask k s))"
  unfolding deleteTask_def by (rule seq_db_ok) (simp_all add: idbDelete_db_ok renderTasks_db_ok)

lemma toggleTaskDone_db_ok: "db_ok s \<Longrightarrow> db_ok (snd (toggleTaskDone task s))"
  unfolding toggleTaskDone_def by (rule seq_db_ok) (simp_all add: idbPut_db_ok renderTasks_db_ok)

lemma delete_each_db_ok: "db_ok s \<Longrightarrow> db_ok (snd (delete_each n kp ms s))"
proof (induction ms arbitrary: s)
  case Nil
  then show ?case by simp
next
  case (Cons m ms)
  show ?case
    unfolding delete_each.simps
    by (rule seq_db_ok) (simp_all add: idbDelete_db_ok Cons)
qed

lemma deleteJour_db_ok: "db_ok s \<Longrightarrow> db_ok (snd (deleteJour T today now s))"
  unfolding deleteJour_def
  by (intro seq_db_ok)
     (auto simp: idbGetAll_db_ok idbIndexGetAll_db_ok idbDelete_db_ok delete_each_db_ok
         ensureTodayJour_db_ok split: option.splits intro!: seq_db_ok)

subsection \<open>One record for a title\<close>

lemma filter_only:
  assumes "distinct xs" and "r \<in> set xs" and "P r" and "\<forall>x\<in>set xs. P x \<longrightarrow> x = r"
  shows "filter P xs = [r]"
  using assms(1,2,4)
proof (induction xs)
  case Nil
  then show ?case by simp
next
  case (Cons x xs)
  have d: "x \<notin> set xs" "distinct xs" using Cons.prems(1) by simp_all
  have rest: "\<forall>y\<in>set xs. P y \<longrightarrow> y = r" using Cons.prems(3) by simp
  show ?case
  proof (cases "x = r")
    case True
    have "\<not> P y" if "y \<in> set xs" for y
    proof
      assume "P y"
      with rest that have "y = r" by blast
      with that d(1) True show False by blast
    qed
    then have "filter P xs = []" by (simp add: filter_empty_conv)
    with True assms(3) show ?thesis by simp
  next
    case False
    have "\<not> P x"
    proof
      assume "P x"
      with Cons.prems(3) have "x = r" by simp
      with False show False by blast
    qed
    moreover have "r \<in> set xs" using Cons.prems(2) False by (simp add: eq_commute)
    then have "filter P xs = [r]" using Cons.IH d(2) rest by blast
    ultimately show ?thesis by simp
  qed
qed

text \<open>In a well-formed database a journal title names one record.\<close>

lemma only_titled:
  assumes "db_ok s" and "r \<in> set (rows (jour s))" and "js_get r ''jour_title'' = Str T"
  shows "filter (\<lambda>x. js_get x ''jour_title'' = Str T) (rows (jour s)) = [r]"
proof (rule filter_only)
  have "distinct (map (\<lambda>r. js_get r ''jour_id'') (rows (jour s)))"
    using assms(1) by (simp add: db_ok_def store_ok_def sorted_keys_distinct)
  then show "distinct (rows (jour s))" by (simp add: distinct_map)
  show "r \<in> set (rows (jour s))" by (rule assms(2))
  show "js_get r ''jour_title'' = Str T" by (rule assms(3))
  show "\<forall>x\<in>set (rows (jour s)). js_get x ''jour_title'' = Str T \<longrightarrow> x = r"
    using assms by (auto simp: db_ok_def titles_unique_def)
qed

lemma scenario_db_ok: "db_ok scenario"
proof -
  have "titles_unique (jour scenario)" by (simp add: titles_unique_def scenario_eq)
  then show ?thesis using scenario_ok by (simp add: db_ok_def)
qed

section \<open>The claims\<close>

text \<open>
  C1 (as amended). \<open>ensureTodayJour\<close> always makes today's title the active journal.
  When its insert of the journal record fails, for whatever reason (a record of that
  title exists already, or the device failed), the failure is caught and no store is
  changed; the call then completes successfully provided the device serves the reads
  of the re-rendering (\<open>length (device s) \<le> 1\<close>: at most the insert itself is
  scheduled to fail).
\<close>

theorem ensureTodayJour_catch:
  "currentJourTitle (snd (ensureTodayJour today now s)) = today \<and>
   (fst (idbAdd ''jour'' [(''jour_title'', Str today), (''created_at'', Str now)]
           (s\<lparr>currentJourTitle := today\<rparr>)) = Inl e \<and> length (device s) \<le> 1
    \<longrightarrow> fst (ensureTodayJour today now s) = Inr ()
      \<and> jour (snd (ensureTodayJour today now s)) = jour s
      \<and> memos (snd (ensureTodayJour today now s)) = memos s
      \<and> tasks (snd (ensureTodayJour today now s)) = tasks s)"
proof -
  let ?v = "[(''jour_title'', Str today), (''created_at'', Str now)]"
  let ?s1 = "s\<lparr>currentJourTitle := today\<rparr>"
  obtain r s2 where add: "idbAdd ''jour'' ?v ?s1 = (r, s2)" by (cases "idbAdd ''jour'' ?v ?s1")
  have run: "ensureTodayJour today now s = renderAll s2"
    by (cases r) (simp_all add: ensureTodayJour_def add)
  have "currentJourTitle s2 = today"
    using store_record_frame [of True "''jour''" ?v ?s1] add by (simp add: idbAdd_def)
  then have cur: "currentJourTitle (snd (ensureTodayJour today now s)) = today"
    by (simp add: run renderAll_frame)
  have caught: "fst (ensureTodayJour today now s) = Inr ()
      \<and> jour (snd (ensureTodayJour today now s)) = jour s
      \<and> memos (snd (ensureTodayJour today now s)) = memos s
      \<and> tasks (snd (ensureTodayJour today now s)) = tasks s"
    if fail: "r = Inl e" and dev: "length (device s) \<le> 1"
  proof -
    have k: "js_get ?v ''jour_id'' = Undefined" by (simp add: js_get_def)
    have "fst (idbAdd ''jour'' ?v ?s1) = Inl e" using add fail by simp
    from idbAdd_failed [OF this k] add
    have fr: "jour s2 = jour s" "memos s2 = memos s" "tasks s2 = tasks s" "device s2 = tl (device s)"
      by simp_all
    have "device s2 = []" using dev fr(4) by (cases "device s") auto
    then show ?thesis using fr by (simp add: run renderAll_ok)
  qed
  show ?thesis using cur caught add by auto
qed

text \<open>The journal of the scenario exists already: the insert fails on the unique index.\<close>

theorem ensureTodayJour_catch_witness:
  "fst (idbAdd ''jour'' [(''jour_title'', Str (js ''2024-01-01'')), (''created_at'', Str (js ''2024/1/1 10:00:00''))]
         (scenario\<lparr>currentJourTitle := js ''2024-01-01''\<rparr>)) = Inl ConstraintError
   \<and> length (device scenario) \<le> 1
   \<and> fst (ensureTodayJour (js ''2024-01-01'') (js ''2024/1/1 10:00:00'') scenario) = Inr ()
   \<and> jour (snd (ensureTodayJour (js ''2024-01-01'') (js ''2024/1/1 10:00:00'') scenario)) = jour scenario
   \<and> currentJourTitle (snd (ensureTodayJour (js ''2024-01-01'') (js ''2024/1/1 10:00:00'') scenario)) = js ''2024-01-01''"
proof -
  have h: "fst (idbAdd ''jour'' [(''jour_title'', Str (js ''2024-01-01'')), (''created_at'', Str (js ''2024/1/1 10:00:00''))]
         (scenario\<lparr>currentJourTitle := js ''2024-01-01''\<rparr>)) = Inl ConstraintError
       \<and> length (device scenario) \<le> 1"
    by (simp add: scenario_defs engine_defs js_def)
  from ensureTodayJour_catch [of "js ''2024-01-01''" "js ''2024/1/1 10:00:00''" scenario ConstraintError] h
  show ?thesis by blast
qed

text \<open>
  On a fresh database whose device fails the next request, the insert fails with a
  failure of the device, no unique index being involved, and \<open>ensureTodayJour\<close>
  completes successfully all the same: the failure does not reach the caller.
\<close>

theorem ensureTodayJour_catch_counterexample:
  "fst (idbAdd ''jour'' [(''jour_title'', Str (js ''2024-01-01'')), (''created_at'', Str (js ''2024/1/1 9:00:00''))]
         ((onupgradeneeded (js ''2024-01-01''))\<lparr>device := [RequestFails]\<rparr>)) = Inl DeviceFailure
   \<and> fst (ensureTodayJour (js ''2024-01-01'') (js ''2024/1/1 9:00:00'')
         ((onupgradeneeded (js ''2024-01-01''))\<lparr>device := [RequestFails]\<rparr>)) = Inr ()"
  by (simp add: app_defs onupgradeneeded_def engine_defs js_def)

text \<open>
  C2. On a well-formed database and a device that serves every request,
  \<open>deleteJour T\<close> completes. It first reads all journal records and looks for the
  first one titled \<open>T\<close>. When there is none it returns having placed no other call,
  so no delete. When there is one, the calls it places are exactly: the read of the
  journals, the two index reads for \<open>T\<close>, a delete by key for every memo whose
  \<open>jour_title\<close> is \<open>T\<close>, then a delete by key for every task whose \<open>jour_title\<close> is
  \<open>T\<close>, then the delete of the journal found by its key, in that order, followed by
  the calls of \<open>ensureTodayJour\<close>; and afterwards no memo and no task titled \<open>T\<close> is
  left while all others are.
\<close>

theorem deleteJour_order:
  assumes dev: "device s = []"
    and okj: "store_ok ''jour_id'' (jour s)"
    and okm: "store_ok ''memo_id'' (memos s)"
    and okt: "store_ok ''id'' (tasks s)"
  shows "fst (deleteJour T today now s) = Inr () \<and>
    (case find (\<lambda>j. js_get j ''jour_title'' = Str T) (rows (jour s)) of
       None \<Rightarrow> snd (deleteJour T today now s) = s\<lparr>trace := trace s @ [GetAll ''jour'']\<rparr>
     | Some target \<Rightarrow>
         trace (snd (deleteJour T today now s)) = trace s @
           [GetAll ''jour'',
            IndexGetAll ''memos'' ''jour_title'' (Str T),
            IndexGetAll ''tasks'' ''jour_title'' (Str T)] @
           map (\<lambda>m. Delete ''memos'' (js_get m ''memo_id''))
               (filter (\<lambda>m. js_get m ''jour_title'' = Str T) (rows (memos s))) @
           map (\<lambda>t. Delete ''tasks'' (js_get t ''id''))
               (filter (\<lambda>t. js_get t ''jour_title'' = Str T) (rows (tasks s))) @
           [Delete ''jour'' (js_get target ''jour_id''),
            Add ''jour'' [(''jour_title'', Str today), (''created_at'', Str now)],
            GetAll ''jour'',
            IndexGetAll ''memos'' ''jour_title'' (Str today),
            IndexGetAll ''tasks'' ''jour_title'' (Str today)]
         \<and> rows (memos (snd (deleteJour T today now s)))
             = filter (\<lambda>m. js_get m ''jour_title'' \<noteq> Str T) (rows (memos s))
         \<and> rows (tasks (snd (deleteJour T today now s)))
             = filter (\<lambda>t. js_get t ''jour_title'' \<noteq> Str T) (rows (tasks s)))"
proof (cases "find (\<lambda>j. js_get j ''jour_title'' = Str T) (rows (jour s))")
  case None
  then show ?thesis
    using dev by (simp add: deleteJour_def idbGetAll_jour_ok strict_eq_Str)
next
  case (Some target)
  let ?ms = "filter (\<lambda>m. js_get m ''jour_title'' = Str T) (rows (memos s))"
  let ?ts = "filter (\<lambda>t. js_get t ''jour_title'' = Str T) (rows (tasks s))"
  define s3 where "s3 = s\<lparr>trace := trace s @ [GetAll ''jour'', IndexGetAll ''memos'' ''jour_title'' (Str T),
                  IndexGetAll ''tasks'' ''jour_title'' (Str T)]\<rparr>"
  define s4 where "s4 = s3\<lparr>memos := (memos s3)\<lparr>rows := filter (\<lambda>r. js_get r ''memo_id'' \<notin> (\<lambda>m. js_get m ''memo_id'') ` set ?ms) (rows (memos s3))\<rparr>,
               trace := trace s3 @ map (\<lambda>m. Delete ''memos'' (js_get m ''memo_id'')) ?ms\<rparr>"
  define s5 where "s5 = s4\<lparr>tasks := (tasks s4)\<lparr>rows := filter (\<lambda>r. js_get r ''id'' \<notin> (\<lambda>m. js_get m ''id'') ` set ?ts) (rows (tasks s4))\<rparr>,
               trace := trace s4 @ map (\<lambda>m. Delete ''tasks'' (js_get m ''id'')) ?ts\<rparr>"
  define s6 where "s6 = s5\<lparr>jour := (jour s5)\<lparr>rows := filter (\<lambda>r. js_get r ''jour_id'' \<noteq> js_get target ''jour_id'') (rows (jour s5))\<rparr>,
               trace := trace s5 @ [Delete ''jour'' (js_get target ''jour_id'')]\<rparr>"
  have tk: "valid_key (js_get target ''jour_id'')"
    using Some okj by (auto simp: store_ok_def find_Some_iff)
  have vm: "\<forall>m\<in>set ?ms. valid_key (js_get m ''memo_id'')" using okm by (simp add: store_ok_def)
  have vt: "\<forall>t\<in>set ?ts. valid_key (js_get t ''id'')" using okt by (simp add: store_ok_def)
  have d3: "device s3 = []" using dev by (simp add: s3_def)
  have d4: "device s4 = []" using d3 by (simp add: s4_def)
  have d5: "device s5 = []" using d4 by (simp add: s5_def)
  have d6: "device s6 = []" using d5 by (simp add: s6_def)
  have g: "idbGetAll ''jour'' s = (Inr (rows (jour s)), s\<lparr>trace := trace s @ [GetAll ''jour'']\<rparr>)"
    using dev by (rule idbGetAll_jour_ok)
  have im: "idbIndexGetAll ''memos'' ''jour_title'' (Str T) (s\<lparr>trace := trace s @ [GetAll ''jour'']\<rparr>)
      = (Inr ?ms, s\<lparr>trace := trace s @ [GetAll ''jour'', IndexGetAll ''memos'' ''jour_title'' (Str T)]\<rparr>)"
    using dev by (simp add: idbIndexGetAll_title_ok)
  have it: "idbIndexGetAll ''tasks'' ''jour_title'' (Str T)
        (s\<lparr>trace := trace s @ [GetAll ''jour'', IndexGetAll ''memos'' ''jour_title'' (Str T)]\<rparr>)
      = (Inr ?ts, s3)"
    using dev by (simp add: idbIndexGetAll_title_ok s3_def)
  have dm: "delete_each ''memos'' ''memo_id'' ?ms s3 = (Inr (), s4)"
    unfolding s4_def using d3
  proof (rule delete_each_memos)
    show "\<forall>m\<in>set ?ms. valid_key (js_get m ''memo_id'')"
      using vm by simp
  qed
  have dt: "delete_each ''tasks'' ''id'' ?ts s4 = (Inr (), s5)"
    unfolding s5_def using d4 vt by (rule delete_each_tasks)
  have dj: "idbDelete ''jour'' (js_get target ''jour_id'') s5 = (Inr (), s6)"
    unfolding s6_def using d5 tk by (rule idbDelete_jour_ok)
  have run: "deleteJour T today now s = ensureTodayJour today now s6"
    using Some by (simp add: deleteJour_def g strict_eq_Str im it dm dt dj)
  note en = ensureTodayJour_ok [OF d6, of today now]
  have fm: "filter (\<lambda>r. js_get r ''memo_id'' \<notin> (\<lambda>m. js_get m ''memo_id'') ` set ?ms) (rows (memos s))
              = filter (\<lambda>m. js_get m ''jour_title'' \<noteq> Str T) (rows (memos s))"
  proof (rule filter_by_keys)
    show "sorted_wrt key_lt (map (\<lambda>r. js_get r ''memo_id'') (rows (memos s)))"
      using okm by (simp add: store_ok_def)
  qed
  have ft: "filter (\<lambda>r. js_get r ''id'' \<notin> (\<lambda>m. js_get m ''id'') ` set ?ts) (rows (tasks s))
              = filter (\<lambda>m. js_get m ''jour_title'' \<noteq> Str T) (rows (tasks s))"
  proof (rule filter_by_keys)
    show "sorted_wrt key_lt (map (\<lambda>r. js_get r ''id'') (rows (tasks s)))"
      using okt by (simp add: store_ok_def)
  qed
  have m4: "rows (memos s4) = filter (\<lambda>r. js_get r ''memo_id'' \<notin> (\<lambda>m. js_get m ''memo_id'') ` set ?ms) (rows (memos s))"
    by (simp add: s4_def s3_def)
  have m6: "rows (memos s6) = rows (memos s4)" by (simp add: s6_def s5_def)
  have t5: "rows (tasks s5) = filter (\<lambda>r. js_get r ''id'' \<notin> (\<lambda>m. js_get m ''id'') ` set ?ts) (rows (tasks s))"
    by (simp add: s5_def s4_def s3_def)
  have t6: "rows (tasks s6) = rows (tasks s5)" by (simp add: s6_def)
  have "rows (memos s6) = filter (\<lambda>m. js_get m ''jour_title'' \<noteq> Str T) (rows (memos s))"
    by (simp only: m6 m4 fm)
  moreover have "rows (tasks s6) = filter (\<lambda>m. js_get m ''jour_title'' \<noteq> Str T) (rows (tasks s))"
    by (simp only: t6 t5 ft)
  moreover have "trace s6 = trace s @
           [GetAll ''jour'', IndexGetAll ''memos'' ''jour_title'' (Str T),
            IndexGetAll ''tasks'' ''jour_title'' (Str T)] @
           map (\<lambda>m. Delete ''memos'' (js_get m ''memo_id'')) ?ms @
           map (\<lambda>t. Delete ''tasks'' (js_get t ''id'')) ?ts @
           [Delete ''jour'' (js_get target ''jour_id'')]"
    by (simp add: s6_def s5_def s4_def s3_def)
  ultimately show ?thesis
    using en by (simp add: Some run)
qed

text \<open>The calls placed when the journal of the scenario is deleted on the next day.\<close>

theorem deleteJour_order_witness:
  "device scenario = [] \<and> store_ok ''jour_id'' (jour scenario)
   \<and> store_ok ''memo_id'' (memos scenario) \<and> store_ok ''id'' (tasks scenario)
   \<and> find (\<lambda>j. js_get j ''jour_title'' = Str (js ''2024-01-01'')) (rows (jour scenario))
       = Some (scenario_jour @ [(''jour_id'', Num 1)])
   \<and> fst (deleteJour (js ''2024-01-01'') (js ''2024-01-02'') (js ''2024/1/2 8:00:00'') scenario) = Inr ()
   \<and> trace (snd (deleteJour (js ''2024-01-01'') (js ''2024-01-02'') (js ''2024/1/2 8:00:00'') scenario))
       = trace scenario @
         [GetAll ''jour'',
          IndexGetAll ''memos'' ''jour_title'' (Str (js ''2024-01-01'')),
          IndexGetAll ''tasks'' ''jour_title'' (Str (js ''2024-01-01'')),
          Delete ''memos'' (Num 1), Delete ''tasks'' (Num 1), Delete ''jour'' (Num 1),
          Add ''jour'' [(''jour_title'', Str (js ''2024-01-02'')), (''created_at'', Str (js ''2024/1/2 8:00:00''))],
          GetAll ''jour'',
          IndexGetAll ''memos'' ''jour_title'' (Str (js ''2024-01-02'')),
          IndexGetAll ''tasks'' ''jour_title'' (Str (js ''2024-01-02''))]"
proof -
  have f: "find (\<lambda>j. js_get j ''jour_title'' = Str (js ''2024-01-01'')) (rows (jour scenario))
       = Some (scenario_jour @ [(''jour_id'', Num 1)])"
    by (simp add: scenario_defs js_get_def)
  have ev: "filter (\<lambda>m. js_get m ''jour_title'' = Str (js ''2024-01-01'')) (rows (memos scenario))
              = [scenario_memo @ [(''memo_id'', Num 1)]]"
     "filter (\<lambda>m. js_get m ''jour_title'' = Str (js ''2024-01-01'')) (rows (tasks scenario))
              = [scenario_task @ [(''id'', Num 1)]]"
     "js_get (scenario_memo @ [(''memo_id'', Num 1)]) ''memo_id'' = Num 1"
     "js_get (scenario_task @ [(''id'', Num 1)]) ''id'' = Num 1"
     "js_get (scenario_jour @ [(''jour_id'', Num 1)]) ''jour_id'' = Num 1"
    by (simp_all add: scenario_defs js_get_def)
  from deleteJour_order [OF scenario_ok(4,1,2,3), of "js ''2024-01-01''" "js ''2024-01-02''" "js ''2024/1/2 8:00:00''"]
    scenario_ok f ev
  show ?thesis by simp
qed

text \<open>
  C3 (as amended). In the scenario, \<open>deleteJour "2024-01-01"\<close> completes and leaves the
  memo store and the task store empty. The journal store is not empty: the journal
  with key 1 is gone, and the \<open>ensureTodayJour\<close> call that ends \<open>deleteJour\<close> has
  created a journal for today with the new key 2. A following \<open>ensureTodayJour\<close> on
  the day \<open>2024-01-01\<close> completes; it creates a record with the new key 3 when the
  deletion took place on another day, and none when it took place on \<open>2024-01-01\<close>,
  the journal of that title then being the one with key 2. Either way the journal
  titled \<open>2024-01-01\<close> has a key other than the deleted one.
\<close>

theorem deleteJour_scenario:
  "fst (deleteJour (js ''2024-01-01'') today now scenario) = Inr ()
   \<and> rows (memos (snd (deleteJour (js ''2024-01-01'') today now scenario))) = []
   \<and> rows (tasks (snd (deleteJour (js ''2024-01-01'') today now scenario))) = []
   \<and> rows (jour (snd (deleteJour (js ''2024-01-01'') today now scenario)))
        = [[(''jour_title'', Str today), (''created_at'', Str now), (''jour_id'', Num 2)]]
   \<and> fst (ensureTodayJour (js ''2024-01-01'') later
            (snd (deleteJour (js ''2024-01-01'') today now scenario))) = Inr ()
   \<and> rows (jour (snd (ensureTodayJour (js ''2024-01-01'') later
            (snd (deleteJour (js ''2024-01-01'') today now scenario)))))
        = (if today = js ''2024-01-01''
           then [[(''jour_title'', Str today), (''created_at'', Str now), (''jour_id'', Num 2)]]
           else [[(''jour_title'', Str today), (''created_at'', Str now), (''jour_id'', Num 2)],
                 [(''jour_title'', Str (js ''2024-01-01'')), (''created_at'', Str later), (''jour_id'', Num 3)]])"
proof -
  define s1 where "s1 = snd (deleteJour (js ''2024-01-01'') today now scenario)"
  let ?j2 = "[(''jour_title'', Str today), (''created_at'', Str now), (''jour_id'', Num 2)]"
  let ?v = "[(''jour_title'', Str (js ''2024-01-01'')), (''created_at'', Str later)]"
  have after: "fst (deleteJour (js ''2024-01-01'') today now scenario) = Inr ()"
    "rows (memos s1) = []" "rows (tasks s1) = []" "rows (jour s1) = [?j2]"
    by (simp_all add: s1_def deleteJour_scenario_state)
  have s1: "keygen (jour s1) = 3" "device s1 = []"
    by (simp_all add: s1_def deleteJour_scenario_state)
  have again: "fst (ensureTodayJour (js ''2024-01-01'') later s1) = Inr ()"
    using ensureTodayJour_ok [OF s1(2)] by simp
  have add: "jour (snd (ensureTodayJour (js ''2024-01-01'') later s1))
               = jour (snd (idbAdd ''jour'' ?v (s1\<lparr>currentJourTitle := js ''2024-01-01''\<rparr>)))"
    by (simp add: ensureTodayJour_def renderAll_frame split: prod.splits sum.splits)
  have "rows (jour (snd (idbAdd ''jour'' ?v (s1\<lparr>currentJourTitle := js ''2024-01-01''\<rparr>))))
          = (if today = js ''2024-01-01'' then [?j2] else [?j2, ?v @ [(''jour_id'', Num 3)]])"
    using after(4) s1 by (simp add: engine_defs js_def)
  with after again add show ?thesis unfolding s1_def by simp
qed

text \<open>Deleting on the day \<open>2024-01-01\<close> itself: the journal is there again, with key 2.\<close>

theorem deleteJour_scenario_witness:
  "rows (jour (snd (ensureTodayJour (js ''2024-01-01'') (js ''2024/1/1 10:00:00'')
            (snd (deleteJour (js ''2024-01-01'') (js ''2024-01-01'') (js ''2024/1/1 9:30:00'') scenario)))))
     = [[(''jour_title'', Str (js ''2024-01-01'')), (''created_at'', Str (js ''2024/1/1 9:30:00'')), (''jour_id'', Num 2)]]"
  using deleteJour_scenario [of "js ''2024-01-01''" "js ''2024/1/1 9:30:00''" "js ''2024/1/1 10:00:00''"]
  by simp

text \<open>
  Deleting the journal of the scenario on the next day leaves the journal store with
  one record, the journal of that day.
\<close>

theorem deleteJour_scenario_counterexample:
  "rows (jour (snd (deleteJour (js ''2024-01-01'') (js ''2024-01-02'') (js ''2024/1/2 8:00:00'') scenario)))
     = [[(''jour_title'', Str (js ''2024-01-02'')), (''created_at'', Str (js ''2024/1/2 8:00:00'')),
         (''jour_id'', Num 2)]]
   \<and> rows (jour (snd (deleteJour (js ''2024-01-01'') (js ''2024-01-02'') (js ''2024/1/2 8:00:00'') scenario))) \<noteq> []"
  by (simp add: app_defs scenario_defs engine_defs js_def)

text \<open>
  C4. In a well-formed database that stores a journal record \<open>r\<close> titled \<open>T\<close>, on
  a device that serves every request, \<open>idbAdd\<close> of another journal record titled
  \<open>T\<close> (without key, or with any valid key) fails with \<open>ConstraintError\<close>, which is
  not the failure of a device; the three stores are as before, and the index lookup
  for \<open>T\<close> still returns \<open>r\<close>, unmodified, and nothing else.
\<close>

theorem idbAdd_duplicate_title:
  assumes ok: "db_ok s" and r: "r \<in> set (rows (jour s))" "js_get r ''jour_title'' = Str T"
    and v: "js_get v ''jour_title'' = Str T"
    and key: "js_get v ''jour_id'' = Undefined \<or> valid_key (js_get v ''jour_id'')"
    and dev: "device s = []"
  shows "fst (idbAdd ''jour'' v s) = Inl ConstraintError
       \<and> jour (snd (idbAdd ''jour'' v s)) = jour s
       \<and> memos (snd (idbAdd ''jour'' v s)) = memos s
       \<and> tasks (snd (idbAdd ''jour'' v s)) = tasks s
       \<and> fst (idbIndexGetAll ''jour'' ''jour_title'' (Str T) (snd (idbAdd ''jour'' v s))) = Inr [r]"
proof -
  have one: "filter (\<lambda>x. js_get x ''jour_title'' = Str T) (rows (jour s)) = [r]"
    using ok r by (rule only_titled)
  have clash: "list_ex (\<lambda>x. js_get x ''jour_id'' = k) (rows (jour s))
       \<or> unique_clash \<lparr>keyPath = ''jour_id'', autoIncrement = True,
           indexes = [\<lparr>idx_name = ''jour_title'', idx_keyPath = ''jour_title'', idx_unique = True\<rparr>]\<rparr>
           k w (rows (jour s))" if "js_get w ''jour_title'' = Str T" for k w
  proof (cases "js_get r ''jour_id'' = k")
    case True
    then show ?thesis using r(1) by (auto simp: list_ex_iff)
  next
    case False
    then show ?thesis using unique_clash_jour [OF r that] by simp
  qed
  have add: "idbAdd ''jour'' v s = (Inl ConstraintError, s\<lparr>trace := trace s @ [Add ''jour'' v]\<rparr>)"
    using key
  proof
    assume u: "js_get v ''jour_id'' = Undefined"
    have "js_get (js_set v ''jour_id'' (Num (keygen (jour s)))) ''jour_title'' = Str T"
      using v by (simp add: js_get_js_set)
    from clash [OF this, of "Num (keygen (jour s))"] show ?thesis
      using u dev
      by (simp add: idbAdd_def store_record_def schema_simps extract_key_js_get Let_def tick_def log_call_def)
  next
    assume k: "valid_key (js_get v ''jour_id'')"
    then have nu: "js_get v ''jour_id'' \<noteq> Undefined" by auto
    from clash [OF v, of "js_get v ''jour_id''"] show ?thesis
      using k nu dev
      by (simp add: idbAdd_def store_record_def schema_simps extract_key_js_get Let_def tick_def log_call_def)
  qed
  have "fst (idbIndexGetAll ''jour'' ''jour_title'' (Str T) (s\<lparr>trace := trace s @ [Add ''jour'' v]\<rparr>))
          = Inr (filter (\<lambda>x. js_get x ''jour_title'' = Str T) (rows (jour s)))"
    using dev by (simp add: idbIndexGetAll_def schema_simps tick_def log_call_def index_key_valid)
  then show ?thesis using one by (simp add: add)
qed

text \<open>A second journal for the title of the scenario.\<close>

theorem idbAdd_duplicate_title_witness:
  "db_ok scenario
   \<and> scenario_jour @ [(''jour_id'', Num 1)] \<in> set (rows (jour scenario))
   \<and> js_get (scenario_jour @ [(''jour_id'', Num 1)]) ''jour_title'' = Str (js ''2024-01-01'')
   \<and> js_get [(''jour_title'', Str (js ''2024-01-01'')), (''created_at'', Str (js ''2024/1/1 10:00:00''))] ''jour_id'' = Undefined
   \<and> device scenario = []
   \<and> fst (idbAdd ''jour'' [(''jour_title'', Str (js ''2024-01-01'')), (''created_at'', Str (js ''2024/1/1 10:00:00''))] scenario)
       = Inl ConstraintError
   \<and> fst (idbIndexGetAll ''jour'' ''jour_title'' (Str (js ''2024-01-01''))
        (snd (idbAdd ''jour'' [(''jour_title'', Str (js ''2024-01-01'')), (''created_at'', Str (js ''2024/1/1 10:00:00''))] scenario)))
       = Inr [scenario_jour @ [(''jour_id'', Num 1)]]"
proof -
  let ?v = "[(''jour_title'', Str (js ''2024-01-01'')), (''created_at'', Str (js ''2024/1/1 10:00:00''))]"
  have h1: "scenario_jour @ [(''jour_id'', Num 1)] \<in> set (rows (jour scenario))"
    "js_get (scenario_jour @ [(''jour_id'', Num 1)]) ''jour_title'' = Str (js ''2024-01-01'')"
    by (simp_all add: scenario_defs js_get_def)
  have h2: "js_get ?v ''jour_title'' = Str (js ''2024-01-01'')" by (simp add: js_get_def)
  have h3: "js_get ?v ''jour_id'' = Undefined" by (simp add: js_get_def)
  from idbAdd_duplicate_title [OF scenario_db_ok h1 h2 disjI1 [OF h3] scenario_ok(4)]
    scenario_db_ok h1 h3 scenario_ok(4)
  show ?thesis by simp
qed

text \<open>
  C5. Let \<open>task\<close> be a record of a well-formed task store whose \<open>done\<close> is 0 or 1, on a
  device that serves every request. \<open>toggleTaskDone task\<close> completes; the record
  \<open>t1\<close> then stored under the key of \<open>task\<close> (the one the re-rendered button is bound
  to) is \<open>task\<close> with \<open>done\<close> flipped and nothing else changed; and
  \<open>toggleTaskDone t1\<close> completes and leaves the task store exactly as it was at the
  start, records and key generator, with the other two stores untouched.
\<close>

theorem toggleTaskDone_twice:
  assumes ok: "store_ok ''id'' (tasks s)" and st: "task \<in> set (rows (tasks s))"
    and d: "js_get task ''done'' = Num 0 \<or> js_get task ''done'' = Num 1"
    and dev: "device s = []"
    and t1: "toggleTaskDone task s = (r1, s1)"
    and re: "t1 \<in> set (rows (tasks s1))" "js_get t1 ''id'' = js_get task ''id''"
    and t2: "toggleTaskDone t1 s1 = (r2, s2)"
  shows "r1 = Inr () \<and> r2 = Inr ()
       \<and> t1 = js_set task ''done'' (Num (if js_get task ''done'' = Num 0 then 1 else 0))
       \<and> tasks s2 = tasks s \<and> jour s2 = jour s \<and> memos s2 = memos s"
proof -
  let ?v = "js_set task ''done'' (Num (if truthy (js_get task ''done'') then 0 else 1))"
  let ?rows1 = "map (\<lambda>r. if r = task then ?v else r) (rows (tasks s))"
  have kv: "js_get ?v ''id'' = js_get task ''id''" by (simp add: js_get_js_set)
  note first = toggle_stored [OF ok st dev]
  from t1 first have r1: "r1 = Inr ()" and tasks1: "tasks s1 = \<lparr>rows = ?rows1, keygen = keygen (tasks s)\<rparr>"
    and dev1: "device s1 = []" and jour1: "jour s1 = jour s" and memos1: "memos s1 = memos s"
    using dev by auto
  have ok1: "store_ok ''id'' (tasks s1)"
    unfolding tasks1 using ok kv by (rule store_ok_replace)
  have vin: "?v \<in> set (rows (tasks s1))" using st by (auto simp: tasks1)
  have srt1: "sorted_wrt key_lt (map (\<lambda>r. js_get r ''id'') (rows (tasks s1)))"
    using ok1 by (simp add: store_ok_def)
  have t1v: "t1 = ?v"
    using sorted_same_key [OF srt1 re(1) vin] re(2) kv by simp
  have restore: "js_set t1 ''done'' (Num (if truthy (js_get t1 ''done'') then 0 else 1)) = task"
    using d by (auto simp: t1v js_get_js_set js_set_js_set js_set_same)
  note second = toggle_stored [OF ok1 re(1) dev1]
  have srt: "sorted_wrt key_lt (map (\<lambda>r. js_get r ''id'') (rows (tasks s)))"
    using ok by (simp add: store_ok_def)
  have other: "\<And>r. r \<in> set (rows (tasks s)) \<Longrightarrow> r \<noteq> task \<Longrightarrow> r \<noteq> ?v"
  proof
    fix r assume r: "r \<in> set (rows (tasks s))" "r \<noteq> task" "r = ?v"
    then have "js_get r ''id'' = js_get task ''id''" using kv by simp
    then have "r = task" using sorted_same_key [OF srt r(1) st] by simp
    then show False using r(2) by simp
  qed
  have "map (\<lambda>r. if r = ?v then task else r) ?rows1 = rows (tasks s)"
    using other by (simp add: map_idI)
  then have rows2: "map (\<lambda>r. if r = t1 then task else r) (rows (tasks s1)) = rows (tasks s)"
    by (simp add: t1v tasks1)
  from t2 second have r2: "r2 = Inr ()" and tasks2: "tasks s2 = tasks s"
    and "jour s2 = jour s1" and "memos s2 = memos s1"
    using restore rows2 by (auto simp: tasks1)
  moreover have "?v = js_set task ''done'' (Num (if js_get task ''done'' = Num 0 then 1 else 0))"
    using d by auto
  ultimately show ?thesis using r1 t1v jour1 memos1 by simp
qed

text \<open>The task of the scenario, toggled to done and back.\<close>

theorem toggleTaskDone_twice_witness:
  "store_ok ''id'' (tasks scenario)
   \<and> scenario_task @ [(''id'', Num 1)] \<in> set (rows (tasks scenario))
   \<and> js_get (scenario_task @ [(''id'', Num 1)]) ''done'' = Num 0
   \<and> device scenario = []
   \<and> js_set (scenario_task @ [(''id'', Num 1)]) ''done'' (Num 1)
        \<in> set (rows (tasks (snd (toggleTaskDone (scenario_task @ [(''id'', Num 1)]) scenario))))
   \<and> fst (toggleTaskDone (scenario_task @ [(''id'', Num 1)]) scenario) = Inr ()
   \<and> fst (toggleTaskDone (js_set (scenario_task @ [(''id'', Num 1)]) ''done'' (Num 1))
            (snd (toggleTaskDone (scenario_task @ [(''id'', Num 1)]) scenario))) = Inr ()
   \<and> tasks (snd (toggleTaskDone (js_set (scenario_task @ [(''id'', Num 1)]) ''done'' (Num 1))
            (snd (toggleTaskDone (scenario_task @ [(''id'', Num 1)]) scenario)))) = tasks scenario"
proof -
  let ?t = "scenario_task @ [(''id'', Num 1)]"
  let ?t1 = "js_set ?t ''done'' (Num 1)"
  let ?s1 = "snd (toggleTaskDone ?t scenario)"
  have h2: "?t \<in> set (rows (tasks scenario))" by (simp add: scenario_eq)
  have h3: "js_get ?t ''done'' = Num 0" by (simp add: scenario_task_def js_get_def)
  have h5: "toggleTaskDone ?t scenario = (fst (toggleTaskDone ?t scenario), ?s1)" by simp
  have h6: "?t1 \<in> set (rows (tasks ?s1))"
    by (simp add: app_defs scenario_defs engine_defs js_def)
  have h7: "js_get ?t1 ''id'' = js_get ?t ''id''" by (simp add: js_get_js_set)
  have h8: "toggleTaskDone ?t1 ?s1 = (fst (toggleTaskDone ?t1 ?s1), snd (toggleTaskDone ?t1 ?s1))" by simp
  from toggleTaskDone_twice [OF scenario_ok(3) h2 disjI1 [OF h3] scenario_ok(4) h5 h6 h7 h8]
    scenario_ok(3,4) h2 h3 h6
  show ?thesis by simp
qed

text \<open>
  C6. When the text of the dialog is empty (or white space only, which \<open>trim\<close> makes
  empty), \<open>editMemo\<close> returns with the state as it was: no call is placed on any store,
  \<open>put\<close> included, and every stored record is unchanged. The rejection is
  \<open>editMemo\<close>'s own, before the storage engine is reached.
\<close>

theorem editMemo_blank_noop:
  assumes "\<forall>c\<in>set (inputValue d). is_ws c"
  shows "editMemo memo d s = (Inr (), s)"
  using promptModal_blank [of d] assms by (auto simp: editMemo_def)

text \<open>Editing the memo of the scenario to the empty text.\<close>

theorem editMemo_blank_noop_witness:
  "inputValue \<lparr>returnValue = js ''ok'', inputValue = []\<rparr> = []
   \<and> editMemo (scenario_memo @ [(''memo_id'', Num 1)]) \<lparr>returnValue = js ''ok'', inputValue = []\<rparr> scenario
       = (Inr (), scenario)"
  using editMemo_blank_noop [of "\<lparr>returnValue = js ''ok'', inputValue = []\<rparr>"
      "scenario_memo @ [(''memo_id'', Num 1)]" scenario]
  by simp

text \<open>
  C7. For a sequence of \<open>idbAdd\<close> calls on one store with records whose key field is
  absent, from any state and whatever requests fail in between, provided no
  transaction fails at commit: the keys returned are strictly increasing in call
  order, hence pairwise distinct; and when the store was well-formed, none of them
  is the key of a record it held before.
\<close>

theorem assigned_keys_increase:
  assumes "schema storeName = Some sc" and "\<forall>v\<in>set vs. js_get v (keyPath sc) = Undefined"
    and "CommitFails \<notin> set (device s)"
  shows "sorted_wrt key_lt (assigned_keys (fst (add_all storeName vs s)))
       \<and> distinct (assigned_keys (fst (add_all storeName vs s)))
       \<and> (store_ok (keyPath sc) (get_store storeName s) \<longrightarrow>
            (\<forall>k\<in>set (assigned_keys (fst (add_all storeName vs s))).
               k \<notin> (\<lambda>r. js_get r (keyPath sc)) ` set (rows (get_store storeName s))))"
proof -
  note keys = add_all_keys [OF assms]
  have "k \<notin> (\<lambda>r. js_get r (keyPath sc)) ` set (rows (get_store storeName s))"
    if ok: "store_ok (keyPath sc) (get_store storeName s)"
      and k: "k \<in> set (assigned_keys (fst (add_all storeName vs s)))" for k
  proof
    assume "k \<in> (\<lambda>r. js_get r (keyPath sc)) ` set (rows (get_store storeName s))"
    then obtain r where r: "r \<in> set (rows (get_store storeName s))" "js_get r (keyPath sc) = k"
      by auto
    from keys k obtain m where m: "k = Num m" "keygen (get_store storeName s) \<le> m" "m \<le> 2 ^ 53"
      by blast
    from ok r m(1) have "m < keygen (get_store storeName s) \<or> 2 ^ 53 < keygen (get_store storeName s)"
      by (auto simp: store_ok_def)
    with m(2,3) show False by linarith
  qed
  with keys sorted_keys_distinct show ?thesis by blast
qed

text \<open>
  Three more memos in the scenario, the request of the first failing: the other two
  get the keys 2 and 3.
\<close>

theorem assigned_keys_increase_witness:
  "schema ''memos'' = Some \<lparr>keyPath = ''memo_id'', autoIncrement = True,
      indexes = [\<lparr>idx_name = ''jour_title'', idx_keyPath = ''jour_title'', idx_unique = False\<rparr>]\<rparr>
   \<and> js_get scenario_memo ''memo_id'' = Undefined
   \<and> CommitFails \<notin> set (device (scenario\<lparr>device := [RequestFails]\<rparr>))
   \<and> fst (add_all ''memos'' [scenario_memo, scenario_memo, scenario_memo]
            (scenario\<lparr>device := [RequestFails]\<rparr>))
        = [Inl DeviceFailure, Inr (Num 2), Inr (Num 3)]
   \<and> sorted_wrt key_lt (assigned_keys (fst (add_all ''memos'' [scenario_memo, scenario_memo, scenario_memo]
            (scenario\<lparr>device := [RequestFails]\<rparr>))))
   \<and> distinct (assigned_keys (fst (add_all ''memos'' [scenario_memo, scenario_memo, scenario_memo]
            (scenario\<lparr>device := [RequestFails]\<rparr>))))
   \<and> Num 2 \<notin> (\<lambda>r. js_get r ''memo_id'') ` set (rows (memos scenario))"
proof -
  let ?s = "scenario\<lparr>device := [RequestFails]\<rparr>"
  let ?vs = "[scenario_memo, scenario_memo, scenario_memo]"
  have h1: "schema ''memos'' = Some \<lparr>keyPath = ''memo_id'', autoIncrement = True,
      indexes = [\<lparr>idx_name = ''jour_title'', idx_keyPath = ''jour_title'', idx_unique = False\<rparr>]\<rparr>"
    by (simp add: schema_def)
  have h2: "\<forall>v\<in>set ?vs.
      js_get v (keyPath \<lparr>keyPath = ''memo_id'', autoIncrement = True,
      indexes = [\<lparr>idx_name = ''jour_title'', idx_keyPath = ''jour_title'', idx_unique = False\<rparr>]\<rparr>) = Undefined"
    by (simp add: scenario_memo_def js_get_def)
  have h3: "CommitFails \<notin> set (device ?s)" by simp
  have ev: "fst (add_all ''memos'' ?vs ?s) = [Inl DeviceFailure, Inr (Num 2), Inr (Num 3)]"
    by (simp add: scenario_eq scenario_memo_def engine_defs)
  have ok: "store_ok ''memo_id'' (memos ?s)"
    by (simp add: store_ok_def scenario_eq scenario_memo_def js_get_def)
  from assigned_keys_increase [OF h1 h2 h3] h1 h2 h3 ev ok show ?thesis by simp
qed

text \<open>
  C8. For each of the three stores in any state and every key \<open>T\<close> (a string or a
  number), when the device serves the request, \<open>idbIndexGetAll\<close> on the index
  \<open>jour_title\<close> returns exactly the records of the store whose \<open>jour_title\<close> equals
  \<open>T\<close>, in store order: all of them, no other, and the empty list when there is none.
\<close>

theorem idbIndexGetAll_jour_title:
  assumes "schema storeName \<noteq> None" and "valid_key T" and "served s"
  shows "fst (idbIndexGetAll storeName ''jour_title'' T s)
           = Inr (filter (\<lambda>r. js_get r ''jour_title'' = T) (rows (get_store storeName s)))"
proof -
  from assms(1) obtain sc where sc: "schema storeName = Some sc" by auto
  then have ix: "find (\<lambda>ix. idx_name ix = ''jour_title'') (indexes sc)
      = Some \<lparr>idx_name = ''jour_title'', idx_keyPath = ''jour_title'', idx_unique = (storeName = ''jour'')\<rparr>"
    by (auto simp: schema_def split: if_splits)
  have t: "fst (tick (log_call (IndexGetAll storeName ''jour_title'' T) s)) \<noteq> RequestFails"
    by (rule tick_served) (use assms(3) in \<open>simp add: served_def\<close>)
  show ?thesis
    using sc ix t assms(2)
    by (simp add: idbIndexGetAll_def Let_def split_beta index_key_valid)
qed

text \<open>The memos of the journal of the scenario.\<close>

theorem idbIndexGetAll_jour_title_witness:
  "schema ''memos'' \<noteq> None \<and> valid_key (Str (js ''2024-01-01'')) \<and> served scenario
   \<and> fst (idbIndexGetAll ''memos'' ''jour_title'' (Str (js ''2024-01-01'')) scenario)
        = Inr [scenario_memo @ [(''memo_id'', Num 1)]]"
proof -
  have h: "schema ''memos'' \<noteq> None" "valid_key (Str (js ''2024-01-01''))" "served scenario"
    by (simp_all add: schema_def served_def scenario_eq)
  from idbIndexGetAll_jour_title [OF h] h show ?thesis
    by (simp add: scenario_eq scenario_memo_def js_get_def js_def)
qed

text \<open>
  C9. For a task record with a valid key and any value of \<open>done\<close>, absent included, on
  a device that serves every request, \<open>toggleTaskDone\<close> completes, and the record then
  stored under that key has \<open>done\<close> = 0 when the value was truthy and \<open>done\<close> = 1 when it
  was falsy, so 0 or 1 in every case, and all other fields as given.
\<close>

theorem toggleTaskDone_two_state:
  assumes "valid_key (js_get task ''id'')" and "device s = []"
  shows "fst (toggleTaskDone task s) = Inr () \<and>
         (\<exists>t'. find (\<lambda>r. js_get r ''id'' = js_get task ''id'') (rows (tasks (snd (toggleTaskDone task s)))) = Some t'
            \<and> js_get t' ''done'' = (if truthy (js_get task ''done'') then Num 0 else Num 1)
            \<and> (js_get t' ''done'' = Num 0 \<or> js_get t' ''done'' = Num 1)
            \<and> (\<forall>p. p \<noteq> ''done'' \<longrightarrow> js_get t' p = js_get task p))"
proof -
  let ?v = "js_set task ''done'' (Num (if truthy (js_get task ''done'') then 0 else 1))"
  have k: "js_get ?v ''id'' = js_get task ''id''" by (simp add: js_get_js_set)
  have put: "idbPut ''tasks'' ?v s =
     (Inr (js_get task ''id''),
      s\<lparr>tasks := \<lparr>rows = upsert ''id'' (js_get task ''id'') ?v (rows (tasks s)),
                   keygen = put_keygen (js_get task ''id'') (keygen (tasks s))\<rparr>,
        trace := trace s @ [Put ''tasks'' ?v]\<rparr>)"
    using idbPut_tasks_keyed [of ?v s] assms by (simp only: k) 
  have f: "find (\<lambda>r. js_get r ''id'' = js_get task ''id'') (upsert ''id'' (js_get task ''id'') ?v (rows (tasks s))) = Some ?v"
    by (rule find_upsert) (rule k)
  show ?thesis
    using assms(2) f by (simp add: toggleTaskDone_def put renderTasks_ok js_get_js_set)
qed

text \<open>A task whose \<open>done\<close> is the string \<open>yes\<close> is stored with \<open>done\<close> = 0.\<close>

theorem toggleTaskDone_two_state_witness:
  "valid_key (js_get [(''title'', Str (js ''y'')), (''done'', Str (js ''yes'')), (''id'', Num 1)] ''id'')
   \<and> device scenario = []
   \<and> fst (toggleTaskDone [(''title'', Str (js ''y'')), (''done'', Str (js ''yes'')), (''id'', Num 1)] scenario) = Inr ()
   \<and> rows (tasks (snd (toggleTaskDone [(''title'', Str (js ''y'')), (''done'', Str (js ''yes'')), (''id'', Num 1)] scenario)))
       = [[(''title'', Str (js ''y'')), (''done'', Num 0), (''id'', Num 1)]]"
proof -
  let ?t = "[(''title'', Str (js ''y'')), (''done'', Str (js ''yes'')), (''id'', Num 1)]"
  have h: "valid_key (js_get ?t ''id'')" "device scenario = []"
    by (simp_all add: js_get_def scenario_eq)
  have "rows (tasks (snd (toggleTaskDone ?t scenario))) = [[(''title'', Str (js ''y'')), (''done'', Num 0), (''id'', Num 1)]]"
    by (simp add: toggleTaskDone_def renderTasks_def scenario_eq scenario_task_def engine_defs js_def)
  with toggleTaskDone_two_state [OF h] h show ?thesis by simp
qed

text \<open>
  C10. When the dialog was cancelled, or its text is empty or white space only,
  \<open>addMemo\<close> and \<open>addTask\<close> return with the state as it was: no call is placed on any
  store, \<open>add\<close> included, and the three stores are unchanged.
\<close>

theorem add_blank_noop:
  assumes "returnValue d \<noteq> js ''ok'' \<or> (\<forall>c\<in>set (inputValue d). is_ws c)"
  shows "addMemo d now s = (Inr (), s) \<and> addTask d now s = (Inr (), s)"
  using promptModal_blank [OF assms] by (auto simp: addMemo_def addTask_def)

text \<open>Two blanks confirmed with OK, on a fresh database.\<close>

theorem add_blank_noop_witness:
  "addMemo \<lparr>returnValue = js ''ok'', inputValue = js ''  ''\<rparr> (js ''12:00'') (onupgradeneeded (js ''2024-01-01''))
     = (Inr (), onupgradeneeded (js ''2024-01-01''))
   \<and> addTask \<lparr>returnValue = js ''ok'', inputValue = js ''  ''\<rparr> (js ''12:00'') (onupgradeneeded (js ''2024-01-01''))
     = (Inr (), onupgradeneeded (js ''2024-01-01''))"
  using add_blank_noop [of "\<lparr>returnValue = js ''ok'', inputValue = js ''  ''\<rparr>" "js ''12:00''" "onupgradeneeded (js ''2024-01-01'')"]
  by (simp add: js_def is_ws_def)

end
